theory Spec2Isabelle
  imports Main "HOL-Library.Word"
begin

unbundle bit_operations_syntax

section \<open>Machine integers\<close>

type_synonym u8 = "8 word"
type_synonym u16 = "16 word"
type_synonym u32 = "32 word"

text \<open>
  The C++ \<open>int\<close> of the target is 32 bits wide.  Variables of type \<open>int\<close> are modelled as
  \<open>int\<close>; where an \<open>int\<close> expression of the source can leave the 32-bit range the
  two's-complement wrap-around of the hardware is written out with \<open>int32\<close>.
\<close>

definition int32 :: "int \<Rightarrow> int" where
  "int32 v = (v + 2 ^ 31) mod 2 ^ 32 - 2 ^ 31"

section \<open>The paint object (framebuffer)\<close>

text \<open>\<open>static constexpr int BLACK = 0; static constexpr int WHITE = 1;\<close> (main.cpp, 125-126)\<close>

definition BLACK :: int where "BLACK = 0"
definition WHITE :: int where "WHITE = 1"

text \<open>
  The class \<open>Paint\<close> lives in \<open>epd/epdpaint.h\<close>, which is not among the sources; \<open>main.cpp\<close>
  only calls it.  Its state is the backing byte array with the logical width and height.
\<close>

record Paint =
  image_buf :: "u8 list"
  width :: int
  height :: int

text \<open>
  Modelled from the spec: \<open>Paint::DrawPixel\<close> (\<open>set_pixel\<close> of the specification), which
  is declared in the missing \<open>epd/epdpaint.h\<close>.  The specification says: the buffer holds
  packed bits, one bit per pixel, row-major, MSB-first within each byte; two colours only,
  BLACK(0) and WHITE(1), one bit per pixel; \<open>set_pixel\<close> is bounds-checked and an
  out-of-range coordinate is a silent no-op.
\<close>

definition pixel_index :: "Paint \<Rightarrow> int \<Rightarrow> int \<Rightarrow> nat" where
  "pixel_index p x y = nat (y * width p + x)"

definition pixel_mask :: "nat \<Rightarrow> u8" where
  "pixel_mask i = drop_bit (i mod 8) (0x80 :: u8)"

definition DrawPixel :: "Paint \<Rightarrow> int \<Rightarrow> int \<Rightarrow> int \<Rightarrow> Paint" where
  "DrawPixel p x y colored =
     (if x < 0 \<or> x \<ge> width p \<or> y < 0 \<or> y \<ge> height p then p
      else let i = pixel_index p x y;
               old = image_buf p ! (i div 8)
           in p\<lparr>image_buf := (image_buf p)[i div 8 :=
                  (if colored \<noteq> 0 then old OR pixel_mask i else old AND NOT (pixel_mask i))]\<rparr>)"

text \<open>
  The colour stored for a pixel: WHITE when its bit is set, BLACK otherwise.  \<open>main.cpp\<close>
  never reads a pixel through the paint object; \<open>GetPixel\<close> is the observation in which the
  theorems speak about the contents of the buffer.
\<close>

definition GetPixel :: "Paint \<Rightarrow> int \<Rightarrow> int \<Rightarrow> int" where
  "GetPixel p x y =
     (let i = pixel_index p x y
      in if image_buf p ! (i div 8) AND pixel_mask i \<noteq> 0 then WHITE else BLACK)"

text \<open>
  The decoders only read the width and the height of the paint object, which
  \<open>DrawPixel\<close> never changes.  Each decoder is therefore modelled by the sequence of
  \<open>DrawPixel\<close> calls it issues, as triples \<open>(x, y, colored)\<close>, and \<open>run_calls\<close> executes such
  a sequence on a paint object.
\<close>

type_synonym draw_call = "int \<times> int \<times> int"

definition run_calls :: "Paint \<Rightarrow> draw_call list \<Rightarrow> Paint" where
  "run_calls p cs = foldl (\<lambda>q (x, y, c). DrawPixel q x y c) p cs"

section \<open>Files\<close>

text \<open>
  A file of the storage library (\<open>fs::File\<close> of LittleFS, an external collaborator) is a
  byte sequence with a cursor.  \<open>read\<close> returns the bytes that are available, at most the
  number asked for, and advances the cursor by the number of bytes it returned; \<open>seek\<close> moves
  the cursor.
\<close>

record File =
  content :: "u8 list"
  position :: nat

definition fread :: "File \<Rightarrow> nat \<Rightarrow> u8 list \<times> File" where
  "fread f n =
     (let bs = take n (drop (position f) (content f))
      in (bs, f\<lparr>position := position f + length bs\<rparr>))"

definition fseek :: "File \<Rightarrow> nat \<Rightarrow> File" where
  "fseek f pos = f\<lparr>position := pos\<rparr>"

text \<open>
  \<open>template<typename T> T read(File &f)\<close> (main.cpp, 759-765) reads \<open>sizeof(T)\<close> bytes into
  an uninitialised \<open>T\<close>, in platform (little-endian) order.  When the file ends before that,
  the value returned is indeterminate: the model returns \<open>None\<close> there.
\<close>

definition word16_le :: "u8 \<Rightarrow> u8 \<Rightarrow> u16" where
  "word16_le b0 b1 = ucast b0 OR push_bit 8 (ucast b1)"

definition word32_le :: "u8 \<Rightarrow> u8 \<Rightarrow> u8 \<Rightarrow> u8 \<Rightarrow> u32" where
  "word32_le b0 b1 b2 b3 =
     ucast b0 OR push_bit 8 (ucast b1) OR push_bit 16 (ucast b2) OR push_bit 24 (ucast b3)"

definition read16 :: "File \<Rightarrow> (u16 \<times> File) option" where
  "read16 f =
     (case fread f 2 of
        ([b0, b1], f') \<Rightarrow> Some (word16_le b0 b1, f')
      | _ \<Rightarrow> None)"

definition read32 :: "File \<Rightarrow> (u32 \<times> File) option" where
  "read32 f =
     (case fread f 4 of
        ([b0, b1, b2, b3], f') \<Rightarrow> Some (word32_le b0 b1 b2 b3, f')
      | _ \<Rightarrow> None)"

section \<open>The bitmap codec: \<open>bmpDraw\<close>\<close>

text \<open>\<open>pushColours\<close> (main.cpp, 736-745): one \<open>DrawPixel\<close> call per buffered pixel.\<close>

definition pushColours :: "int \<Rightarrow> int \<Rightarrow> nat \<Rightarrow> u16 list \<Rightarrow> draw_call list" where
  "pushColours row col lcdidx lcdbuffer =
     map (\<lambda>idx. (row, col + int idx, if lcdbuffer ! idx \<noteq> 0 then WHITE else BLACK))
       [0..<lcdidx]"

text \<open>\<open>static constexpr int BUFFPIXEL{20}\<close> (main.cpp, 747); \<open>sizeof(sdbuffer) = 3*BUFFPIXEL\<close>.\<close>

definition BUFFPIXEL :: nat where "BUFFPIXEL = 20"

definition sizeof_sdbuffer :: nat where "sizeof_sdbuffer = 3 * BUFFPIXEL"

text \<open>
  \<open>(r << 24) | (g << 8) || b\<close> (main.cpp, 903): \<open>|\<close> binds tighter than \<open>||\<close>, so the value
  stored in the 16-bit \<open>lcdbuffer\<close> is the truth value of \<open>((r << 24) | (g << 8)) || b\<close>.
\<close>

definition colour_of :: "u8 \<Rightarrow> u8 \<Rightarrow> u8 \<Rightarrow> u16" where
  "colour_of r g b =
     (if (push_bit 24 (ucast r :: u32) OR push_bit 8 (ucast g :: u32)) \<noteq> 0 \<or> b \<noteq> 0
      then 1 else 0)"

text \<open>
  The local variables of \<open>bmpDraw\<close> that the scanline loops change (main.cpp, 801-815),
  with the \<open>DrawPixel\<close> calls issued so far.
\<close>

record decode_state =
  bmpFile :: File
  sdbuffer :: "u8 list"
  buffidx :: nat
  lcdbuffer :: "u16 list"
  lcdidx :: nat
  calls :: "draw_call list"

text \<open>The flush of the pixel-out buffer (main.cpp, 889-894 and 906-910).\<close>

definition flush_lcd :: "decode_state \<Rightarrow> int \<Rightarrow> int \<Rightarrow> decode_state" where
  "flush_lcd st row col =
     (if lcdidx st > 0
      then st\<lparr>calls := calls st @ pushColours row (col - int (lcdidx st)) (lcdidx st) (lcdbuffer st),
              lcdidx := 0\<rparr>
      else st)"

text \<open>
  \<open>bmpFile.read(sdbuffer, sizeof(sdbuffer))\<close> (main.cpp, 895-896): the bytes read overwrite
  the front of \<open>sdbuffer\<close>; after a short read the rest of the array keeps what it held.
\<close>

definition reload :: "decode_state \<Rightarrow> decode_state" where
  "reload st =
     (let (bs, f') = fread (bmpFile st) sizeof_sdbuffer
      in st\<lparr>bmpFile := f', sdbuffer := bs @ drop (length bs) (sdbuffer st), buffidx := 0\<rparr>)"

text \<open>The body of the column loop for one pixel (main.cpp, 886-903).\<close>

definition pixel_step :: "decode_state \<Rightarrow> int \<Rightarrow> int \<Rightarrow> decode_state" where
  "pixel_step st row col =
     (let st1 = (if buffidx st \<ge> sizeof_sdbuffer then reload (flush_lcd st row col) else st);
          b = sdbuffer st1 ! buffidx st1;
          g = sdbuffer st1 ! (buffidx st1 + 1);
          r = sdbuffer st1 ! (buffidx st1 + 2)
      in st1\<lparr>buffidx := buffidx st1 + 3,
             lcdbuffer := (lcdbuffer st1)[lcdidx st1 := colour_of r g b],
             lcdidx := lcdidx st1 + 1\<rparr>)"

text \<open>\<open>for (col=0; col<w; col++)\<close> (main.cpp, 885-904); returns the state and the final \<open>col\<close>.\<close>

function col_loop :: "decode_state \<Rightarrow> int \<Rightarrow> int \<Rightarrow> int \<Rightarrow> decode_state \<times> int" where
  "col_loop st row col w =
     (if col < w then col_loop (pixel_step st row col) row (col + 1) w else (st, col))"
  by pat_completeness auto
termination
  by (relation "measure (\<lambda>(st, row, col, w). nat (w - col))") auto

text \<open>
  The start offset of a scanline (main.cpp, 876-879), in \<open>uint32_t\<close> arithmetic:
  \<open>bmpImageoffset + (bmpHeight - 1 - row) * rowSize\<close> when \<open>flip\<close>, else
  \<open>bmpImageoffset + row * rowSize\<close>.
\<close>

definition row_pos :: "bool \<Rightarrow> u32 \<Rightarrow> int \<Rightarrow> u32 \<Rightarrow> int \<Rightarrow> u32" where
  "row_pos flip bmpImageoffset bmpHeight rowSize row =
     (if flip then bmpImageoffset + of_int (bmpHeight - 1 - row) * rowSize
      else bmpImageoffset + of_int row * rowSize)"

text \<open>The conditional seek (main.cpp, 880-883).\<close>

definition seek_row :: "decode_state \<Rightarrow> u32 \<Rightarrow> decode_state" where
  "seek_row st pos =
     (if position (bmpFile st) \<noteq> unat pos
      then st\<lparr>bmpFile := fseek (bmpFile st) (unat pos), buffidx := sizeof_sdbuffer\<rparr>
      else st)"

text \<open>One scanline: seek, column loop, final flush (main.cpp, 876-910).\<close>

definition scanline :: "bool \<Rightarrow> u32 \<Rightarrow> int \<Rightarrow> u32 \<Rightarrow> int \<Rightarrow> decode_state \<Rightarrow> int \<Rightarrow> decode_state" where
  "scanline flip bmpImageoffset bmpHeight rowSize w st row =
     (let st1 = seek_row st (row_pos flip bmpImageoffset bmpHeight rowSize row);
          (st2, col) = col_loop st1 row 0 w
      in flush_lcd st2 row col)"

text \<open>\<open>for (row=0; row<h; row++)\<close> (main.cpp, 869-911).\<close>

function row_loop ::
  "bool \<Rightarrow> u32 \<Rightarrow> int \<Rightarrow> u32 \<Rightarrow> int \<Rightarrow> int \<Rightarrow> decode_state \<Rightarrow> int \<Rightarrow> decode_state" where
  "row_loop flip bmpImageoffset bmpHeight rowSize w h st row =
     (if row < h
      then row_loop flip bmpImageoffset bmpHeight rowSize w h
             (scanline flip bmpImageoffset bmpHeight rowSize w st row) (row + 1)
      else st)"
  by pat_completeness auto
termination
  by (relation "measure (\<lambda>(flip, off, bh, rs, w, h, st, row). nat (h - row))") auto

text \<open>
  The header of a bitmap file as \<open>bmpDraw\<close> parses it (main.cpp, 829-842).  \<open>hdr_depth\<close> is
  the local \<open>uint8_t bmpDepth\<close>, which receives the 16-bit field read from the file.
\<close>

record bmp_header =
  hdr_offset :: u32
  hdr_width :: u32
  hdr_height :: u32
  hdr_depth :: u8
  hdr_file :: File

datatype error = Indeterminate_read

text \<open>
  The result is \<open>Inl Indeterminate_read\<close> when the file ends inside a field that is read,
  \<open>Inr None\<close> when the header is rejected (\<open>goodBmp\<close> stays false) and \<open>Inr (Some hdr)\<close> when
  \<open>goodBmp\<close> is set.  The compression field is read only when the depth test succeeded,
  as the \<open>&&\<close> of the source does.
\<close>

definition with16 :: "File \<Rightarrow> (u16 \<Rightarrow> File \<Rightarrow> error + 'a) \<Rightarrow> error + 'a" where
  "with16 f k = (case read16 f of None \<Rightarrow> Inl Indeterminate_read | Some (v, f') \<Rightarrow> k v f')"

definition with32 :: "File \<Rightarrow> (u32 \<Rightarrow> File \<Rightarrow> error + 'a) \<Rightarrow> error + 'a" where
  "with32 f k = (case read32 f of None \<Rightarrow> Inl Indeterminate_read | Some (v, f') \<Rightarrow> k v f')"

definition parse_header :: "File \<Rightarrow> error + bmp_header option" where
  "parse_header f0 =
     with16 f0 (\<lambda>sig f1.
     if sig \<noteq> 0x4D42 then Inr None else
     with32 f1 (\<lambda>fsize f2.
     with32 f2 (\<lambda>creator f3.
     with32 f3 (\<lambda>bmpImageoffset f4.
     with32 f4 (\<lambda>hsize f5.
     with32 f5 (\<lambda>bmpWidth f6.
     with32 f6 (\<lambda>bmpHeight f7.
     with16 f7 (\<lambda>planes f8.
     if planes \<noteq> 1 then Inr None else
     with16 f8 (\<lambda>depth f9.
     let bmpDepth = (ucast depth :: u8) in
     if \<not> (bmpDepth = 24) then Inr None else
     with32 f9 (\<lambda>compression f10.
     if \<not> (compression = 0) then Inr None else
     Inr (Some \<lparr>hdr_offset = bmpImageoffset, hdr_width = bmpWidth, hdr_height = bmpHeight,
                hdr_depth = bmpDepth, hdr_file = f10\<rparr>)))))))))))"

text \<open>\<open>rowSize = (bmpWidth * 3 + 3) & ~3\<close> (main.cpp, 851), on the 32-bit pattern.\<close>

definition rowSize_of :: "u32 \<Rightarrow> u32" where
  "rowSize_of bmpWidth = (bmpWidth * 3 + 3) AND NOT 3"

text \<open>
  \<open>if (bmpHeight < 0) { bmpHeight = -bmpHeight; flip = false; }\<close> (main.cpp, 855-858):
  the flag and the height used afterwards.
\<close>

definition flip_of :: "u32 \<Rightarrow> bool" where
  "flip_of bmpHeight = (\<not> sint bmpHeight < 0)"

definition height_of :: "u32 \<Rightarrow> int" where
  "height_of bmpHeight = (if sint bmpHeight < 0 then int32 (- sint bmpHeight) else sint bmpHeight)"

text \<open>The crop (main.cpp, 861-864), for one axis: \<open>if ((x+w-1) >= limit) w = limit - x\<close>.\<close>

definition crop :: "int \<Rightarrow> int \<Rightarrow> int \<Rightarrow> int" where
  "crop x w limit = (if int32 (int32 (x + w) - 1) \<ge> limit then int32 (limit - x) else w)"

text \<open>
  The scanline loops on a parsed header (main.cpp, 850-911).  \<open>sd0\<close> stands for the
  contents of the uninitialised stack array \<open>sdbuffer\<close> and \<open>lcd0\<close> for those of \<open>lcdbuffer\<close>.
\<close>

definition decode :: "Paint \<Rightarrow> u8 list \<Rightarrow> u16 list \<Rightarrow> bmp_header \<Rightarrow> int \<Rightarrow> int \<Rightarrow> decode_state" where
  "decode p sd0 lcd0 hdr x y =
     (let rowSize = rowSize_of (hdr_width hdr);
          flip = flip_of (hdr_height hdr);
          bmpHeight = height_of (hdr_height hdr);
          w = crop x (sint (hdr_width hdr)) (width p);
          h = crop y bmpHeight (height p)
      in row_loop flip (hdr_offset hdr) bmpHeight rowSize w h
           \<lparr>bmpFile = hdr_file hdr, sdbuffer = sd0, buffidx = sizeof_sdbuffer,
            lcdbuffer = lcd0, lcdidx = 0, calls = []\<rparr> 0)"

text \<open>
  What a call of \<open>bmpDraw\<close> did: whether \<open>LittleFS.open\<close> was called, the final value of
  \<open>goodBmp\<close>, and the \<open>DrawPixel\<close> calls in order.
\<close>

record bmp_result =
  open_called :: bool
  goodBmp :: bool
  draw_calls :: "draw_call list"

text \<open>
  \<open>bmpDraw\<close> (main.cpp, 798-921).  The file system is a map from file names to contents;
  a name outside its domain is a file that \<open>LittleFS.open\<close> does not find.  The \<open>Serial\<close>
  output is left out.
\<close>

definition bmpDraw ::
  "(string \<rightharpoonup> u8 list) \<Rightarrow> Paint \<Rightarrow> u8 list \<Rightarrow> u16 list \<Rightarrow> string \<Rightarrow> int \<Rightarrow> int
     \<Rightarrow> error + bmp_result" where
  "bmpDraw fs p sd0 lcd0 filename x y =
     (if x \<ge> width p \<or> y \<ge> height p
      then Inr \<lparr>open_called = False, goodBmp = False, draw_calls = []\<rparr>
      else case fs filename of
        None \<Rightarrow> Inr \<lparr>open_called = True, goodBmp = False, draw_calls = []\<rparr>
      | Some bytes \<Rightarrow>
          (case parse_header \<lparr>content = bytes, position = 0\<rparr> of
             Inl e \<Rightarrow> Inl e
           | Inr None \<Rightarrow> Inr \<lparr>open_called = True, goodBmp = False, draw_calls = []\<rparr>
           | Inr (Some hdr) \<Rightarrow>
               Inr \<lparr>open_called = True, goodBmp = True,
                    draw_calls = calls (decode p sd0 lcd0 hdr x y)\<rparr>))"

text \<open>The paint object after the call.\<close>

definition bmpDraw_paint ::
  "(string \<rightharpoonup> u8 list) \<Rightarrow> Paint \<Rightarrow> u8 list \<Rightarrow> u16 list \<Rightarrow> string \<Rightarrow> int \<Rightarrow> int
     \<Rightarrow> error + Paint" where
  "bmpDraw_paint fs p sd0 lcd0 filename x y =
     (case bmpDraw fs p sd0 lcd0 filename x y of
        Inl e \<Rightarrow> Inl e
      | Inr res \<Rightarrow> Inr (run_calls p (draw_calls res)))"

text \<open>
  The reference decoder that the buffered one is compared with: it follows the
  specification's words and seeks to the offset of every scanline unconditionally, so that
  every scanline starts with a reload of the buffer.  Everything else is \<open>bmpDraw\<close>'s.
\<close>

definition seek_row_ref :: "decode_state \<Rightarrow> u32 \<Rightarrow> decode_state" where
  "seek_row_ref st pos = st\<lparr>bmpFile := fseek (bmpFile st) (unat pos), buffidx := sizeof_sdbuffer\<rparr>"

definition scanline_ref :: "bool \<Rightarrow> u32 \<Rightarrow> int \<Rightarrow> u32 \<Rightarrow> int \<Rightarrow> decode_state \<Rightarrow> int \<Rightarrow> decode_state" where
  "scanline_ref flip bmpImageoffset bmpHeight rowSize w st row =
     (let st1 = seek_row_ref st (row_pos flip bmpImageoffset bmpHeight rowSize row);
          (st2, col) = col_loop st1 row 0 w
      in flush_lcd st2 row col)"

function row_loop_ref ::
  "bool \<Rightarrow> u32 \<Rightarrow> int \<Rightarrow> u32 \<Rightarrow> int \<Rightarrow> int \<Rightarrow> decode_state \<Rightarrow> int \<Rightarrow> decode_state" where
  "row_loop_ref flip bmpImageoffset bmpHeight rowSize w h st row =
     (if row < h
      then row_loop_ref flip bmpImageoffset bmpHeight rowSize w h
             (scanline_ref flip bmpImageoffset bmpHeight rowSize w st row) (row + 1)
      else st)"
  by pat_completeness auto
termination
  by (relation "measure (\<lambda>(flip, off, bh, rs, w, h, st, row). nat (h - row))") auto

definition decode_ref :: "Paint \<Rightarrow> u8 list \<Rightarrow> u16 list \<Rightarrow> bmp_header \<Rightarrow> int \<Rightarrow> int \<Rightarrow> decode_state" where
  "decode_ref p sd0 lcd0 hdr x y =
     (let rowSize = rowSize_of (hdr_width hdr);
          flip = flip_of (hdr_height hdr);
          bmpHeight = height_of (hdr_height hdr);
          w = crop x (sint (hdr_width hdr)) (width p);
          h = crop y bmpHeight (height p)
      in row_loop_ref flip (hdr_offset hdr) bmpHeight rowSize w h
           \<lparr>bmpFile = hdr_file hdr, sdbuffer = sd0, buffidx = sizeof_sdbuffer,
            lcdbuffer = lcd0, lcdidx = 0, calls = []\<rparr> 0)"

section \<open>The generic compressed-image codec: \<open>PNGDraw\<close>\<close>

text \<open>
  \<open>PNGDraw\<close> (main.cpp, 947-955), the scanline callback of the PNG library.  The library
  (an external collaborator) has filled \<open>usPixels\<close> with the decoded scanline; \<open>iWidth\<close> and
  \<open>y\<close> are the fields of \<open>pDraw\<close>.  The result is the sequence of \<open>DrawPixel\<close> calls of the
  loop \<open>for (int i = 0; i < pDraw->iWidth && i < paint.GetWidth(); ++i)\<close>.
\<close>

function PNGDraw_loop :: "Paint \<Rightarrow> int \<Rightarrow> int \<Rightarrow> u16 list \<Rightarrow> int \<Rightarrow> draw_call list" where
  "PNGDraw_loop p iWidth y usPixels i =
     (if i < iWidth \<and> i < width p
      then (i, y, if usPixels ! nat i \<noteq> 0 then BLACK else WHITE)
             # PNGDraw_loop p iWidth y usPixels (i + 1)
      else [])"
  by pat_completeness auto
termination
  by (relation "measure (\<lambda>(p, iWidth, y, usPixels, i). nat (iWidth - i))") auto

definition PNGDraw_calls :: "Paint \<Rightarrow> int \<Rightarrow> int \<Rightarrow> u16 list \<Rightarrow> draw_call list" where
  "PNGDraw_calls p iWidth y usPixels = PNGDraw_loop p iWidth y usPixels 0"

definition PNGDraw :: "Paint \<Rightarrow> int \<Rightarrow> int \<Rightarrow> u16 list \<Rightarrow> Paint" where
  "PNGDraw p iWidth y usPixels = run_calls p (PNGDraw_calls p iWidth y usPixels)"

section \<open>Codec selection: \<open>display_image\<close>\<close>

text \<open>\<open>String::endsWith\<close> of the Arduino core compares the tail of the string byte by byte.\<close>

definition endsWith :: "string \<Rightarrow> string \<Rightarrow> bool" where
  "endsWith s suffix =
     (length suffix \<le> length s \<and> drop (length s - length suffix) s = suffix)"

text \<open>
  What \<open>display_image\<close> (main.cpp, 958-995) does, as the sequence of its calls into the
  codecs, the paint object and the panel.  \<open>esp8266\<close> is the build flag \<open>ESP8266\<close>, which
  compiles the body of the first branch out; \<open>png_ok\<close> says whether \<open>png.open\<close> returned
  \<open>PNG_SUCCESS\<close>.
\<close>

datatype event =
  Png_open | Png_decode | Bmp_draw | Epd_LDirInit | Epd_Clear | Paint_reset_clear
  | Epd_WaitUntilIdle | Epd_DisplayPart

definition display_image :: "bool \<Rightarrow> bool \<Rightarrow> string \<Rightarrow> event list" where
  "display_image esp8266 png_ok filename =
     (if endsWith filename ''.png''
      then (if esp8266 then []
            else Png_open #
              (if png_ok
               then [Epd_LDirInit, Epd_Clear, Paint_reset_clear, Png_decode,
                     Epd_WaitUntilIdle, Epd_DisplayPart]
               else []))
      else if endsWith filename ''.bmp'' \<or> endsWith filename ''.BMP''
      then [Epd_LDirInit, Epd_Clear, Paint_reset_clear, Bmp_draw, Epd_DisplayPart]
      else [])"

section \<open>The snapshot encoder\<close>

text \<open>
  \<open>static_cast<uint8_t>(v >> k)\<close> on an \<open>int\<close> (main.cpp, 1182-1194): byte \<open>k div 8\<close> of the
  two's-complement pattern.
\<close>

definition byte_of :: "int \<Rightarrow> nat \<Rightarrow> u8" where
  "byte_of v k = of_int (int32 v div 2 ^ k)"

definition le32 :: "int \<Rightarrow> u8 list" where
  "le32 v = [byte_of v 0, byte_of v 8, byte_of v 16, byte_of v 24]"

text \<open>The two headers (main.cpp, 1178-1194).\<close>

definition bmpfileheader :: "Paint \<Rightarrow> u8 list" where
  "bmpfileheader p =
     [0x42, 0x4D] @ le32 (14 + 40 + 3 * width p * height p) @ [0, 0, 0, 0] @ [54, 0, 0, 0]"

definition bmpinfoheader :: "Paint \<Rightarrow> u8 list" where
  "bmpinfoheader p =
     [40, 0, 0, 0] @ le32 (width p) @ le32 (height p) @ [1, 0, 24, 0] @ replicate 24 0"

text \<open>The gray level of one pixel (main.cpp, 1205).\<close>

definition snapshot_rgb :: "Paint \<Rightarrow> int \<Rightarrow> int \<Rightarrow> u8" where
  "snapshot_rgb p row col =
     (if image_buf p ! nat ((row * width p + col) div 8)
           AND drop_bit (nat (col mod 8)) (0x80 :: u8) \<noteq> 0
      then 0xFF else 0)"

text \<open>\<open>for (int col = 0; col < convert_width; ++col)\<close> (main.cpp, 1203-1210): the array \<open>rect\<close>.\<close>

function snapshot_cols :: "Paint \<Rightarrow> int \<Rightarrow> int \<Rightarrow> u8 list" where
  "snapshot_cols p row col =
     (if col < width p
      then [snapshot_rgb p row col, snapshot_rgb p row col, snapshot_rgb p row col]
             @ snapshot_cols p row (col + 1)
      else [])"
  by pat_completeness auto
termination
  by (relation "measure (\<lambda>(p, row, col). nat (width p - col))") auto

text \<open>The padding written after a row (main.cpp, 1212-1216).\<close>

definition snapshot_padding :: "Paint \<Rightarrow> u8 list" where
  "snapshot_padding p =
     (if width p mod 4 \<noteq> 0 then replicate (nat (4 - width p mod 4)) 0 else [])"

text \<open>The bytes written for one row: \<open>rect\<close>, then the padding.\<close>

definition snapshot_row :: "Paint \<Rightarrow> int \<Rightarrow> u8 list" where
  "snapshot_row p row = snapshot_cols p row 0 @ snapshot_padding p"

text \<open>\<open>for (int row = convert_height - 1; row >= 0; --row)\<close> (main.cpp, 1201-1217).\<close>

function snapshot_rows :: "Paint \<Rightarrow> int \<Rightarrow> u8 list" where
  "snapshot_rows p row =
     (if row \<ge> 0 then snapshot_row p row @ snapshot_rows p (row - 1) else [])"
  by pat_completeness auto
termination
  by (relation "measure (\<lambda>(p, row). nat (row + 1))") auto

text \<open>The file that \<open>snapshot\<close> writes (main.cpp, 1165-1219).\<close>

definition snapshot :: "Paint \<Rightarrow> u8 list" where
  "snapshot p = bmpfileheader p @ bmpinfoheader p @ snapshot_rows p (height p - 1)"

section \<open>Auxiliary notions for the proofs\<close>

text \<open>
  The \<open>DrawPixel\<close> calls of a decoder state once the pixels waiting in \<open>lcdbuffer\<close> are
  flushed at column \<open>col\<close>.
\<close>

definition all_calls :: "decode_state \<Rightarrow> int \<Rightarrow> int \<Rightarrow> draw_call list" where
  "all_calls st row col =
     calls st @ pushColours row (col - int (lcdidx st)) (lcdidx st) (lcdbuffer st)"

text \<open>Invariants of the column loop and of the scanline loop.\<close>

definition lcd_inv :: "decode_state \<Rightarrow> bool" where
  "lcd_inv st \<longleftrightarrow> lcdidx st * 3 \<le> buffidx st \<and> length (lcdbuffer st) = BUFFPIXEL"

definition row_inv :: "decode_state \<Rightarrow> bool" where
  "row_inv st \<longleftrightarrow> lcdidx st = 0 \<and> length (lcdbuffer st) = BUFFPIXEL"

text \<open>The colour that \<open>pixel_step\<close> stores for the next pixel.\<close>

definition next_colour :: "decode_state \<Rightarrow> int" where
  "next_colour st =
     (let st1 = (if buffidx st \<ge> sizeof_sdbuffer then reload st else st)
      in if colour_of (sdbuffer st1 ! (buffidx st1 + 2)) (sdbuffer st1 ! (buffidx st1 + 1))
              (sdbuffer st1 ! buffidx st1) \<noteq> 0
         then WHITE else BLACK)"

text \<open>The coordinates \<open>(x, y)\<close> of a \<open>DrawPixel\<close> call.\<close>

definition coords :: "draw_call \<Rightarrow> int \<times> int" where
  "coords c = (fst c, fst (snd c))"

text \<open>The pairs \<open>(r, c)\<close> for \<open>r\<close> from \<open>row\<close> below \<open>h\<close> and \<open>c\<close> from 0 below \<open>w\<close>, row by row.\<close>

definition grid :: "int \<Rightarrow> int \<Rightarrow> int \<Rightarrow> (int \<times> int) list" where
  "grid row h w = concat (map (\<lambda>r. map (\<lambda>c. (r, c)) [0..w - 1]) [row..h - 1])"

text \<open>A call at coordinates \<open>xy\<close> changes byte \<open>k\<close> of the backing buffer of \<open>q\<close>.\<close>

definition hits :: "Paint \<Rightarrow> nat \<Rightarrow> int \<times> int \<Rightarrow> bool" where
  "hits q k xy \<longleftrightarrow>
     0 \<le> fst xy \<and> fst xy < width q \<and> 0 \<le> snd xy \<and> snd xy < height q
     \<and> pixel_index q (fst xy) (snd xy) div 8 = k"

text \<open>The 16-bit and the 32-bit little-endian field at offset \<open>k\<close> of a file.\<close>

definition field16 :: "u8 list \<Rightarrow> nat \<Rightarrow> u16" where
  "field16 bytes k = word16_le (bytes ! k) (bytes ! (k + 1))"

definition field32 :: "u8 list \<Rightarrow> nat \<Rightarrow> u32" where
  "field32 bytes k = word32_le (bytes ! k) (bytes ! (k + 1)) (bytes ! (k + 2)) (bytes ! (k + 3))"

text \<open>
  The read buffer agrees with the file: the unread part of \<open>sdbuffer\<close> holds the bytes of
  the file from offset \<open>q\<close> on, and the cursor stands behind the bytes read so far.
\<close>

definition buf_inv :: "decode_state \<Rightarrow> nat \<Rightarrow> bool" where
  "buf_inv st q \<longleftrightarrow>
     length (sdbuffer st) = sizeof_sdbuffer \<and> buffidx st \<le> sizeof_sdbuffer \<and> 3 dvd buffidx st
     \<and> position (bmpFile st)
         = min (length (content (bmpFile st))) (q + (sizeof_sdbuffer - buffidx st))
     \<and> (\<forall>j. buffidx st \<le> j \<and> j < sizeof_sdbuffer
              \<and> q + (j - buffidx st) < length (content (bmpFile st))
            \<longrightarrow> sdbuffer st ! j = content (bmpFile st) ! (q + (j - buffidx st)))"

text \<open>The colour decoded from the three bytes at offset \<open>q\<close> of a file.\<close>

definition pixel_at :: "u8 list \<Rightarrow> nat \<Rightarrow> int" where
  "pixel_at bytes q =
     (if colour_of (bytes ! (q + 2)) (bytes ! (q + 1)) (bytes ! q) \<noteq> 0 then WHITE else BLACK)"

text \<open>The header that \<open>bmpDraw\<close> reads from a file written by \<open>snapshot\<close>.\<close>

definition snapshot_hdr :: "Paint \<Rightarrow> bmp_header" where
  "snapshot_hdr p =
     \<lparr>hdr_offset = 54, hdr_width = of_int (width p), hdr_height = of_int (height p),
      hdr_depth = 24, hdr_file = \<lparr>content = snapshot p, position = 34\<rparr>\<rparr>"

text \<open>
  The calls \<open>DrawPixel(r, c, colour)\<close> for the rows \<open>r\<close> from \<open>row\<close> on and all columns \<open>c\<close>
  of a paint object, where the colour is that of its pixel \<open>(x = c, y = r)\<close>.
\<close>

definition transposed_calls :: "Paint \<Rightarrow> int \<Rightarrow> draw_call list" where
  "transposed_calls p r =
     concat (map (\<lambda>r'. map (\<lambda>c. (r', c, GetPixel p c r')) [0..width p - 1]) [r..height p - 1])"

section \<open>Concrete inputs\<close>

text \<open>Small paint objects, all white, and a paint object one pixel wide.\<close>

definition white8 :: Paint where
  "white8 = \<lparr>image_buf = replicate 8 0xFF, width = 8, height = 8\<rparr>"

definition white32 :: Paint where
  "white32 = \<lparr>image_buf = replicate 128 0xFF, width = 32, height = 32\<rparr>"

definition narrow_paint :: Paint where
  "narrow_paint = \<lparr>image_buf = [0xFF], width = 1, height = 1\<rparr>"

text \<open>Some contents for the two uninitialised stack arrays of \<open>bmpDraw\<close>.\<close>

definition sd_zero :: "u8 list" where "sd_zero = replicate 60 0"

definition lcd_zero :: "u16 list" where "lcd_zero = replicate 20 0"

text \<open>
  A bitmap file of one black pixel whose bit-depth field holds 280 (bytes \<open>0x18, 0x01\<close>):
  signature, plane count and compression flag are the accepted ones.
\<close>

definition bad_depth_bmp :: "u8 list" where
  "bad_depth_bmp =
     [0x42, 0x4D, 58, 0, 0, 0, 0, 0, 0, 0, 54, 0, 0, 0,
      40, 0, 0, 0, 1, 0, 0, 0, 1, 0, 0, 0, 1, 0, 0x18, 0x01, 0, 0, 0, 0]
     @ replicate 20 0 @ [0, 0, 0, 0]"

text \<open>
  A top-down bitmap file (height field \<open>-2\<close>), 19 pixels wide, every pixel white; each row
  is 57 bytes of pixels and 3 bytes of padding.
\<close>

definition topdown19_bmp :: "u8 list" where
  "topdown19_bmp =
     [0x42, 0x4D, 174, 0, 0, 0, 0, 0, 0, 0, 54, 0, 0, 0,
      40, 0, 0, 0, 19, 0, 0, 0, 0xFE, 0xFF, 0xFF, 0xFF, 1, 0, 24, 0, 0, 0, 0, 0]
     @ replicate 20 0
     @ replicate 57 0xFF @ [0, 0, 0]
     @ replicate 57 0xFF @ [0, 0, 0]"

definition white16 :: Paint where
  "white16 = \<lparr>image_buf = replicate 32 0xFF, width = 16, height = 16\<rparr>"

definition paint16x2 :: Paint where
  "paint16x2 = \<lparr>image_buf = replicate 4 0xFF, width = 16, height = 2\<rparr>"

text \<open>
  The 54 header bytes of an uncompressed 24-bit bitmap file with the given file size,
  width and height (each below 256).
\<close>

definition bmp_header_bytes :: "u8 \<Rightarrow> u8 \<Rightarrow> u8 \<Rightarrow> u8 list" where
  "bmp_header_bytes fsize w h =
     [0x42, 0x4D, fsize, 0, 0, 0, 0, 0, 0, 0, 54, 0, 0, 0,
      40, 0, 0, 0, w, 0, 0, 0, h, 0, 0, 0, 1, 0, 24, 0, 0, 0, 0, 0] @ replicate 20 0"

text \<open>Bitmaps of black pixels: 24 by 1, and 17 by 3 (rows of 51 + 1 bytes).\<close>

definition black_24x1_bmp :: "u8 list" where
  "black_24x1_bmp = bmp_header_bytes 126 24 1 @ replicate 72 0"

definition black_17x3_bmp :: "u8 list" where
  "black_17x3_bmp = bmp_header_bytes 210 17 3 @ replicate (3 * 52) 0"

text \<open>A bottom-up bitmap of 2 by 2 pixels, with the header that \<open>bmpDraw\<close> reads from it.\<close>

definition small_bmp :: "u8 list" where
  "small_bmp = bmp_header_bytes 70 2 2
     @ [0, 0, 0, 0xFF, 0xFF, 0xFF, 0, 0] @ [0xFF, 0xFF, 0xFF, 0, 0, 0, 0, 0]"

definition small_hdr :: bmp_header where
  "small_hdr = \<lparr>hdr_offset = 54, hdr_width = 2, hdr_height = 2, hdr_depth = 24,
                hdr_file = \<lparr>content = small_bmp, position = 34\<rparr>\<rparr>"

definition wide_hdr :: bmp_header where
  "wide_hdr = \<lparr>hdr_offset = 54, hdr_width = 24, hdr_height = 1, hdr_depth = 24,
               hdr_file = \<lparr>content = black_24x1_bmp, position = 34\<rparr>\<rparr>"

text \<open>An 8 by 8 paint object, white except for the black pixel \<open>(x = 1, y = 0)\<close>.\<close>

definition dot8 :: Paint where
  "dot8 = \<lparr>image_buf = [0xBF, 0xFF, 0xFF, 0xFF, 0xFF, 0xFF, 0xFF, 0xFF], width = 8, height = 8\<rparr>"

section \<open>Basic facts\<close>

declare col_loop.simps [simp del] row_loop.simps [simp del] row_loop_ref.simps [simp del]
  PNGDraw_loop.simps [simp del] snapshot_cols.simps [simp del] snapshot_rows.simps [simp del]

lemma push_ucast_24: "push_bit 24 (ucast (r::u8) :: u32) = 0 \<longleftrightarrow> r = 0"
proof
  assume a: "push_bit 24 (ucast r :: u32) = 0"
  show "r = 0"
  proof (rule bit_word_eqI)
    fix n assume n: "n < LENGTH(8)"
    then have "bit (push_bit 24 (ucast r :: u32)) (n + 24) = bit r n"
      by (simp add: bit_simps)
    with a show "bit r n = bit (0::u8) n" by simp
  qed
qed simp

lemma push_ucast_8: "push_bit 8 (ucast (g::u8) :: u32) = 0 \<longleftrightarrow> g = 0"
proof
  assume a: "push_bit 8 (ucast g :: u32) = 0"
  show "g = 0"
  proof (rule bit_word_eqI)
    fix n assume n: "n < LENGTH(8)"
    then have "bit (push_bit 8 (ucast g :: u32)) (n + 8) = bit g n"
      by (simp add: bit_simps)
    with a show "bit g n = bit (0::u8) n" by simp
  qed
qed simp

text \<open>The value stored for a pixel is 0 exactly when all three channels are 0.\<close>

lemma colour_of_eq: "colour_of r g b = (if r = 0 \<and> g = 0 \<and> b = 0 then 0 else 1)"
  unfolding colour_of_def
  by (simp add: or_eq_0_iff push_ucast_24 push_ucast_8)

lemma and_not_3: "(x::u32) AND NOT 3 = x div 4 * 4"
proof -
  have m: "(3::u32) = mask 2" by (simp add: mask_eq_exp_minus_1)
  have "x AND NOT (mask 2) = push_bit 2 (drop_bit 2 x)"
  proof (rule bit_word_eqI)
    fix n assume "n < LENGTH(32)"
    show "bit (x AND NOT (mask 2)) n = bit (push_bit 2 (drop_bit 2 x)) n"
    proof (cases "n < 2")
      case True
      then show ?thesis by (simp add: bit_simps)
    next
      case False
      then have "Suc (Suc (n - 2)) = n" by simp
      then show ?thesis using False by (auto simp: bit_simps)
    qed
  qed
  also have "\<dots> = x div 4 * 4"
    by (simp add: push_bit_eq_mult drop_bit_eq_div)
  finally show ?thesis by (simp add: m)
qed

lemma rowSize_word: "rowSize_of bw = (bw * 3 + 3) div 4 * 4"
  unfolding rowSize_of_def by (rule and_not_3)

lemma uint_width_bytes: "uint (bw * 3 + 3 :: u32) = (sint bw * 3 + 3) mod 2 ^ 32"
proof -
  have "uint (bw * 3 + 3) = (uint bw * 3 + 3) mod 2 ^ 32"
    by (simp add: uint_word_ariths mod_simps)
  also have "uint bw = sint bw mod 2 ^ 32"
    by (simp add: uint_sint take_bit_eq_mod)
  finally have "uint (bw * 3 + 3) = (sint bw mod 2 ^ 32 * 3 + 3) mod 2 ^ 32" .
  also have "\<dots> = (sint bw * 3 + 3) mod 2 ^ 32"
    by (metis mod_add_left_eq mod_mult_left_eq)
  finally show ?thesis .
qed

lemma rowSize_uint: "uint (rowSize_of bw) = ((sint bw * 3 + 3) mod 2 ^ 32) div 4 * 4"
proof -
  have "uint ((bw * 3 + 3) div 4 * 4) = uint (bw * 3 + 3) div 4 * 4"
  proof -
    have "uint ((bw * 3 + 3) div 4 * 4) = (uint (bw * 3 + 3) div 4 * 4) mod 2 ^ 32"
      by (simp add: uint_word_ariths uint_div)
    moreover have "uint (bw * 3 + 3) div 4 * 4 \<le> uint (bw * 3 + 3)" by simp
    moreover have "uint (bw * 3 + 3) < 2 ^ 32" using uint_lt2p[of "bw * 3 + 3"] by simp
    moreover have "0 \<le> uint (bw * 3 + 3) div 4 * 4"
      by (simp add: pos_imp_zdiv_nonneg_iff)
    ultimately show ?thesis by (simp add: mod_pos_pos_trivial)
  qed
  then show ?thesis by (simp add: rowSize_word uint_width_bytes)
qed

lemma rowSize_int:
  assumes "0 \<le> sint bw" "sint bw * 3 + 3 < 2 ^ 31"
  shows "uint (rowSize_of bw) = (sint bw * 3 + 3) div 4 * 4"
proof -
  have "(sint bw * 3 + 3) mod 2 ^ 32 = sint bw * 3 + 3"
    using assms by (intro mod_pos_pos_trivial) auto
  then show ?thesis by (simp only: rowSize_uint)
qed

lemma seek_row_position: "position (bmpFile (seek_row st pos)) = unat pos"
  by (simp add: seek_row_def fseek_def)

lemma PNGDraw_loop_nth:
  "k < nat (min iWidth (width p) - i) \<Longrightarrow>
   PNGDraw_loop p iWidth y usPixels i ! k =
     (i + int k, y, if usPixels ! nat (i + int k) \<noteq> 0 then BLACK else WHITE)"
proof (induction p iWidth y usPixels i arbitrary: k rule: PNGDraw_loop.induct)
  case (1 p iWidth y usPixels i)
  from "1.prems" have c: "i < iWidth \<and> i < width p" by auto
  show ?case
  proof (cases k)
    case 0
    then show ?thesis using c by (subst PNGDraw_loop.simps) simp
  next
    case (Suc k')
    have "k' < nat (min iWidth (width p) - (i + 1))" using "1.prems" Suc by auto
    from "1.IH"[OF c this] show ?thesis using c Suc
      by (subst PNGDraw_loop.simps) (simp add: add.assoc)
  qed
qed

section \<open>The sequence of \<open>DrawPixel\<close> calls of the bitmap decoder\<close>

lemma flush_lcd_calls: "calls (flush_lcd st row col) = all_calls st row col"
  by (simp add: flush_lcd_def all_calls_def pushColours_def)

lemma flush_lcd_fields:
  "lcdidx (flush_lcd st row col) = 0"
  "lcdbuffer (flush_lcd st row col) = lcdbuffer st"
  "buffidx (flush_lcd st row col) = buffidx st"
  "sdbuffer (flush_lcd st row col) = sdbuffer st"
  "bmpFile (flush_lcd st row col) = bmpFile st"
  by (simp_all add: flush_lcd_def)

lemma reload_fields:
  "lcdidx (reload st) = lcdidx st"
  "lcdbuffer (reload st) = lcdbuffer st"
  "buffidx (reload st) = 0"
  "calls (reload st) = calls st"
  by (simp_all add: reload_def split: prod.splits)

lemma reload_flush:
  "sdbuffer (reload (flush_lcd st row col)) = sdbuffer (reload st)"
  "bmpFile (reload (flush_lcd st row col)) = bmpFile (reload st)"
  by (simp_all add: reload_def flush_lcd_fields split: prod.splits)

lemma pushColours_snoc:
  assumes "l < length lcd"
  shows "pushColours row (col + 1 - int (l + 1)) (l + 1) (lcd[l := v])
         = pushColours row (col - int l) l lcd @ [(row, col, if v \<noteq> 0 then WHITE else BLACK)]"
  using assms by (simp add: pushColours_def)

lemma pixel_step_calls:
  assumes "lcd_inv st"
  shows "all_calls (pixel_step st row col) row (col + 1)
           = all_calls st row col @ [(row, col, next_colour st)]"
    and "lcd_inv (pixel_step st row col)"
proof -
  show "all_calls (pixel_step st row col) row (col + 1)
           = all_calls st row col @ [(row, col, next_colour st)]"
  proof (cases "buffidx st \<ge> sizeof_sdbuffer")
    case True
    have l: "0 < length (lcdbuffer st)" using assms by (simp add: lcd_inv_def BUFFPIXEL_def)
    show ?thesis
      using True l pushColours_snoc[of 0 "lcdbuffer st" row col]
      by (simp add: pixel_step_def Let_def next_colour_def all_calls_def[of "_\<lparr>buffidx := _, lcdbuffer := _, lcdidx := _\<rparr>"]
          flush_lcd_fields reload_fields reload_flush flush_lcd_calls pushColours_def)
  next
    case False
    have l: "lcdidx st < length (lcdbuffer st)"
      using assms False by (simp add: lcd_inv_def BUFFPIXEL_def sizeof_sdbuffer_def)
    show ?thesis
      using False pushColours_snoc[OF l, of row col]
      by (simp add: pixel_step_def Let_def next_colour_def all_calls_def)
  qed
  show "lcd_inv (pixel_step st row col)"
    using assms
    by (auto simp: pixel_step_def Let_def lcd_inv_def flush_lcd_fields reload_fields)
qed

lemma coords_simp [simp]: "coords (a, b, c) = (a, b)"
  by (simp add: coords_def)

lemma col_loop_step:
  "col < w \<Longrightarrow> col_loop st row col w = col_loop (pixel_step st row col) row (col + 1) w"
  by (subst col_loop.simps) simp

lemma col_loop_stop: "\<not> col < w \<Longrightarrow> col_loop st row col w = (st, col)"
  by (subst col_loop.simps) simp

lemma row_loop_step:
  "row < h \<Longrightarrow> row_loop flip off bh rs w h st row
     = row_loop flip off bh rs w h (scanline flip off bh rs w st row) (row + 1)"
  by (subst row_loop.simps) simp

lemma row_loop_stop: "\<not> row < h \<Longrightarrow> row_loop flip off bh rs w h st row = st"
  by (subst row_loop.simps) simp

lemma col_loop_calls:
  assumes "lcd_inv st"
  shows "lcd_inv (fst (col_loop st row col w))
         \<and> snd (col_loop st row col w) = max col w
         \<and> map coords (all_calls (fst (col_loop st row col w)) row (max col w))
             = map coords (all_calls st row col) @ map (\<lambda>c. (row, c)) [col..w - 1]"
  using assms
proof (induction st row col w rule: col_loop.induct)
  case (1 st row col w)
  show ?case
  proof (cases "col < w")
    case True
    note ps = pixel_step_calls[OF "1.prems", of row col]
    have u: "[col..w - 1] = col # [col + 1..w - 1]" using True by (simp add: upto_rec1)
    have m: "max (col + 1) w = max col w" using True by simp
    from "1.IH"[OF True ps(2)] True show ?thesis
      by (simp add: col_loop_step[OF True] ps(1) u m)
  next
    case False
    then show ?thesis using "1.prems" by (simp add: col_loop_stop)
  qed
qed

lemma seek_row_fields:
  "lcdidx (seek_row st pos) = lcdidx st"
  "lcdbuffer (seek_row st pos) = lcdbuffer st"
  "calls (seek_row st pos) = calls st"
  "sdbuffer (seek_row st pos) = sdbuffer st"
  by (simp_all add: seek_row_def)

lemma scanline_calls:
  assumes "row_inv st"
  shows "row_inv (scanline flip off bh rs w st row)
         \<and> map coords (calls (scanline flip off bh rs w st row))
             = map coords (calls st) @ map (\<lambda>c. (row, c)) [0..w - 1]"
proof -
  let ?st1 = "seek_row st (row_pos flip off bh rs row)"
  have i: "lcd_inv ?st1" using assms by (simp add: lcd_inv_def row_inv_def seek_row_fields)
  have a: "all_calls ?st1 row 0 = calls st"
    using assms by (simp add: all_calls_def row_inv_def seek_row_fields pushColours_def)
  note c = col_loop_calls[OF i, of row 0 w]
  have s: "scanline flip off bh rs w st row
             = flush_lcd (fst (col_loop ?st1 row 0 w)) row (max 0 w)"
    using c by (auto simp: scanline_def Let_def split: prod.splits)
  show ?thesis
    using c a by (simp add: s flush_lcd_calls row_inv_def flush_lcd_fields lcd_inv_def)
qed

lemma row_loop_calls:
  assumes "row_inv st"
  shows "map coords (calls (row_loop flip off bh rs w h st row))
           = map coords (calls st) @ grid row h w"
  using assms
proof (induction flip off bh rs w h st row rule: row_loop.induct)
  case (1 flip off bh rs w h st row)
  show ?case
  proof (cases "row < h")
    case True
    note sc = scanline_calls[OF "1.prems", of flip off bh rs w row]
    have u: "[row..h - 1] = row # [row + 1..h - 1]" using True by (simp add: upto_rec1)
    from "1.IH"[OF True] sc True show ?thesis
      by (simp add: row_loop_step[OF True] grid_def u)
  next
    case False
    then show ?thesis by (simp add: row_loop_stop grid_def)
  qed
qed

lemma decode_calls:
  assumes "length lcd0 = BUFFPIXEL"
  shows "map coords (calls (decode p sd0 lcd0 hdr x y))
           = grid 0 (crop y (height_of (hdr_height hdr)) (height p))
                    (crop x (sint (hdr_width hdr)) (width p))"
  using row_loop_calls[of "\<lparr>bmpFile = hdr_file hdr, sdbuffer = sd0, buffidx = sizeof_sdbuffer,
            lcdbuffer = lcd0, lcdidx = 0, calls = []\<rparr>"] assms
  by (simp add: decode_def Let_def row_inv_def)

section \<open>The effect of \<open>DrawPixel\<close> calls on the backing buffer\<close>

lemma DrawPixel_dims [simp]:
  "width (DrawPixel q x y c) = width q" "height (DrawPixel q x y c) = height q"
  "length (image_buf (DrawPixel q x y c)) = length (image_buf q)"
  "pixel_index (DrawPixel q x y c) a b = pixel_index q a b"
  by (simp_all add: DrawPixel_def Let_def pixel_index_def)

lemma run_calls_Nil [simp]: "run_calls q [] = q"
  by (simp add: run_calls_def)

lemma run_calls_Cons [simp]:
  "run_calls q ((x, y, c) # cs) = run_calls (DrawPixel q x y c) cs"
  by (simp add: run_calls_def)

lemma run_calls_dims [simp]:
  "width (run_calls q cs) = width q \<and> height (run_calls q cs) = height q
   \<and> length (image_buf (run_calls q cs)) = length (image_buf q)"
  by (induction cs arbitrary: q) auto

lemma hits_DrawPixel [simp]: "hits (DrawPixel q x y c) k xy = hits q k xy"
  by (simp add: hits_def)

lemma DrawPixel_frame:
  "\<not> hits q k (x, y) \<Longrightarrow> image_buf (DrawPixel q x y c) ! k = image_buf q ! k"
  by (auto simp: DrawPixel_def Let_def hits_def)

lemma run_calls_frame:
  "\<forall>c \<in> set cs. \<not> hits q k (coords c) \<Longrightarrow> image_buf (run_calls q cs) ! k = image_buf q ! k"
proof (induction cs arbitrary: q)
  case Nil
  then show ?case by simp
next
  case (Cons c cs)
  obtain x y v where c: "c = (x, y, v)" by (cases c) auto
  have "image_buf (run_calls (DrawPixel q x y v) cs) ! k = image_buf (DrawPixel q x y v) ! k"
    using Cons.prems by (intro Cons.IH) simp
  then show ?case using Cons.prems by (simp add: c DrawPixel_frame)
qed

lemma set_grid: "set (grid 0 h w) = {(r, c). 0 \<le> r \<and> r < h \<and> 0 \<le> c \<and> c < w}"
  by (auto simp: grid_def)

lemma int32_id: "- (2 ^ 31) \<le> v \<Longrightarrow> v < 2 ^ 31 \<Longrightarrow> int32 v = v"
  by (simp add: int32_def mod_pos_pos_trivial)

lemma int32_range: "- (2 ^ 31) \<le> int32 v \<and> int32 v < 2 ^ 31"
proof -
  have "0 \<le> (v + 2 ^ 31) mod 2 ^ 32" "(v + 2 ^ 31) mod 2 ^ 32 < (2 ^ 32 :: int)"
    by simp_all
  then show ?thesis by (simp add: int32_def)
qed

lemma crop_le:
  assumes "0 \<le> x" "x < limit" "limit < 2 ^ 31" "x + w < 2 ^ 31" "- (2 ^ 31) \<le> w"
  shows "crop x w limit \<le> limit - x"
proof (cases "int32 (int32 (x + w) - 1) \<ge> limit")
  case True
  then show ?thesis using assms by (simp add: crop_def int32_id)
next
  case False
  have a: "int32 (x + w) = x + w" using assms by (intro int32_id) auto
  show ?thesis
  proof (cases "- (2 ^ 31) \<le> x + w - 1")
    case True
    then have "int32 (x + w - 1) = x + w - 1" using assms by (intro int32_id) auto
    then show ?thesis using False a by (simp add: crop_def)
  next
    case b: False
    then show ?thesis using False assms by (simp add: crop_def)
  qed
qed

lemma small_hdr_parse: "parse_header \<lparr>content = small_bmp, position = 0\<rparr> = Inr (Some small_hdr)"
  by code_simp

lemma wide_hdr_parse: "parse_header \<lparr>content = black_24x1_bmp, position = 0\<rparr> = Inr (Some wide_hdr)"
  by code_simp

lemma decode_calls_bounds:
  assumes "length lcd0 = BUFFPIXEL" "c \<in> set (calls (decode p sd0 lcd0 hdr x y))"
  shows "0 \<le> fst (coords c)
         \<and> fst (coords c) < crop y (height_of (hdr_height hdr)) (height p)
         \<and> 0 \<le> snd (coords c)
         \<and> snd (coords c) < crop x (sint (hdr_width hdr)) (width p)"
proof -
  define cs where "cs = calls (decode p sd0 lcd0 hdr x y)"
  define g where "g = grid 0 (crop y (height_of (hdr_height hdr)) (height p))
                        (crop x (sint (hdr_width hdr)) (width p))"
  have m: "map coords cs = g"
    unfolding cs_def g_def using assms(1) by (rule decode_calls)
  have "coords c \<in> set (map coords cs)" using assms(2) by (simp add: cs_def)
  then have "coords c \<in> set g" by (simp only: m)
  then show ?thesis unfolding g_def set_grid by (simp add: case_prod_beta)
qed

lemma height_of_lower: "- (2 ^ 31) \<le> height_of bh"
  using sint_range_size[of bh] int32_range[of "- sint bh"]
  by (simp add: word_size height_of_def)

lemma sint32_lower: "- (2 ^ 31) \<le> sint (bw :: u32)"
  using sint_range_size[of bw] by (simp add: word_size)

section \<open>The header test of \<open>bmpDraw\<close>\<close>

text \<open>
  On a file that holds the 34 header bytes, the header is accepted exactly when the
  signature is \<open>BM\<close>, the plane count is 1, the low byte of the depth field is 24 and the
  compression field is 0; a file that fails one of these tests leaves the paint object
  as it was.
\<close>

lemma take2_drop: "k + 2 \<le> length xs \<Longrightarrow> take 2 (drop k xs) = [xs ! k, xs ! (k + 1)]"
  by (rule nth_equalityI) (auto simp: nth_Cons' less_Suc_eq numeral_2_eq_2)

lemma take4_drop:
  "k + 4 \<le> length xs \<Longrightarrow> take 4 (drop k xs) = [xs ! k, xs ! (k + 1), xs ! (k + 2), xs ! (k + 3)]"
  by (rule nth_equalityI) (auto simp: nth_Cons' less_Suc_eq numeral_eq_Suc)

lemma with16_at:
  "position f + 2 \<le> length (content f) \<Longrightarrow>
   with16 f k = k (field16 (content f) (position f)) (f\<lparr>position := position f + 2\<rparr>)"
proof -
  assume a: "position f + 2 \<le> length (content f)"
  have "length (take 2 (drop (position f) (content f))) = 2" using a by simp
  then have "fread f 2 = ([content f ! position f, content f ! (position f + 1)],
                          f\<lparr>position := position f + 2\<rparr>)"
    using a by (simp only: fread_def Let_def take2_drop)
  then show ?thesis by (simp add: with16_def read16_def field16_def)
qed

lemma with32_at:
  "position f + 4 \<le> length (content f) \<Longrightarrow>
   with32 f k = k (field32 (content f) (position f)) (f\<lparr>position := position f + 4\<rparr>)"
proof -
  assume a: "position f + 4 \<le> length (content f)"
  have "length (take 4 (drop (position f) (content f))) = 4" using a by simp
  then have "fread f 4 = ([content f ! position f, content f ! (position f + 1),
                           content f ! (position f + 2), content f ! (position f + 3)],
                          f\<lparr>position := position f + 4\<rparr>)"
    using a by (simp only: fread_def Let_def take4_drop)
  then show ?thesis by (simp add: with32_def read32_def field32_def)
qed

lemma parse_header_fields:
  assumes "34 \<le> length bytes"
  shows "parse_header \<lparr>content = bytes, position = 0\<rparr> =
     (if field16 bytes 0 \<noteq> 0x4D42 \<or> field16 bytes 26 \<noteq> 1
         \<or> (ucast (field16 bytes 28) :: u8) \<noteq> 24 \<or> field32 bytes 30 \<noteq> 0
      then Inr None
      else Inr (Some \<lparr>hdr_offset = field32 bytes 10, hdr_width = field32 bytes 18,
                      hdr_height = field32 bytes 22, hdr_depth = 24,
                      hdr_file = \<lparr>content = bytes, position = 34\<rparr>\<rparr>))"
  using assms by (simp add: parse_header_def with16_at with32_at Let_def)

lemma bmpDraw_rejects:
  assumes "fs filename = Some bytes" "34 \<le> length bytes"
    and "field16 bytes 0 \<noteq> 0x4D42 \<or> field16 bytes 26 \<noteq> 1
         \<or> (ucast (field16 bytes 28) :: u8) \<noteq> 24 \<or> field32 bytes 30 \<noteq> 0"
  shows "bmpDraw_paint fs p sd0 lcd0 filename x y = Inr p"
  using assms
  by (auto simp: bmpDraw_paint_def bmpDraw_def parse_header_fields run_calls_def)

section \<open>Reading and writing single pixels\<close>

lemma bit_pixel_mask: "bit (pixel_mask i) n \<longleftrightarrow> n = 7 - i mod 8"
proof -
  have b: "bit (0x80 :: u8) m \<longleftrightarrow> m = 7" for m
  proof -
    have "bit (2 ^ 7 :: u8) m \<longleftrightarrow> m = 7"
      unfolding bit_exp_iff by (auto simp: possible_bit_word)
    then show ?thesis by simp
  qed
  have k: "i mod 8 < 8" by simp
  have "bit (pixel_mask i) n \<longleftrightarrow> bit (0x80 :: u8) (i mod 8 + n)"
    unfolding pixel_mask_def by (simp only: bit_drop_bit_eq comp_apply)
  also have "\<dots> \<longleftrightarrow> i mod 8 + n = 7" by (rule b)
  also have "\<dots> \<longleftrightarrow> n = 7 - i mod 8" using k by arith
  finally show ?thesis .
qed

lemma pixel_mask_set: "(old OR pixel_mask i) AND pixel_mask i \<noteq> 0"
proof
  assume "(old OR pixel_mask i) AND pixel_mask i = 0"
  then have "\<not> bit ((old OR pixel_mask i) AND pixel_mask i) (7 - i mod 8)" by simp
  then show False by (simp add: bit_and_iff bit_or_iff bit_pixel_mask)
qed

lemma pixel_mask_clear: "(old AND NOT (pixel_mask i)) AND pixel_mask i = 0"
  by (rule bit_word_eqI) (auto simp: bit_and_iff bit_not_iff bit_pixel_mask)

lemma pixel_mask_other_set:
  "i mod 8 \<noteq> j mod 8 \<Longrightarrow> (old OR pixel_mask i) AND pixel_mask j = old AND pixel_mask j"
  by (rule bit_word_eqI) (auto simp: bit_and_iff bit_or_iff bit_pixel_mask)

lemma pixel_mask_other_clear:
  "i mod 8 \<noteq> j mod 8 \<Longrightarrow> (old AND NOT (pixel_mask i)) AND pixel_mask j = old AND pixel_mask j"
  by (rule bit_word_eqI) (auto simp: bit_and_iff bit_not_iff bit_pixel_mask)

lemma pixel_index_inj:
  assumes "0 \<le> x" "x < width q" "0 \<le> a" "a < width q" "0 \<le> y" "0 \<le> b"
    and "pixel_index q x y = pixel_index q a b"
  shows "x = a \<and> y = b"
proof -
  have n1: "0 \<le> y * width q + x" using assms by simp
  have n2: "0 \<le> b * width q + a" using assms by simp
  have e: "y * width q + x = b * width q + a"
    using assms(7) n1 n2 unfolding pixel_index_def by linarith
  have "(y * width q + x) mod width q = x" using assms by simp
  moreover have "(b * width q + a) mod width q = a" using assms by simp
  ultimately have xa: "x = a" using e by simp
  have "(y * width q + x) div width q = y" using assms by simp
  moreover have "(b * width q + a) div width q = b" using assms by simp
  ultimately have "y = b" using e by simp
  with xa show ?thesis by simp
qed

lemma pixel_index_bound:
  assumes "0 \<le> x" "x < width q" "0 \<le> y" "y < height q"
    and "width q * height q \<le> 8 * int (length (image_buf q))"
  shows "pixel_index q x y div 8 < length (image_buf q)"
proof -
  have "(y + 1) * width q \<le> height q * width q"
    using assms by (intro mult_right_mono) auto
  then have "y * width q + x < height q * width q"
    using assms by (simp add: algebra_simps)
  then have "y * width q + x < 8 * int (length (image_buf q))"
    using assms(5) by (simp add: mult.commute)
  moreover have "0 \<le> y * width q + x" using assms by simp
  ultimately have "nat (y * width q + x) < length (image_buf q) * 8"
    by (simp add: nat_less_iff mult.commute)
  then show ?thesis unfolding pixel_index_def by (rule less_mult_imp_div_less)
qed

lemma pixel_mask_nz: "pixel_mask i \<noteq> 0"
proof
  assume "pixel_mask i = 0"
  then have "\<not> bit (pixel_mask i) (7 - i mod 8)" by simp
  then show False by (simp add: bit_pixel_mask)
qed

lemma GetPixel_DrawPixel_same:
  assumes "0 \<le> x" "x < width q" "0 \<le> y" "y < height q"
    and "width q * height q \<le> 8 * int (length (image_buf q))"
  shows "GetPixel (DrawPixel q x y c) x y = (if c \<noteq> 0 then WHITE else BLACK)"
proof -
  have l: "pixel_index q x y div 8 < length (image_buf q)"
    using assms by (rule pixel_index_bound)
  define i where "i = pixel_index q x y"
  define new where "new = (if c \<noteq> 0 then image_buf q ! (i div 8) OR pixel_mask i
                          else image_buf q ! (i div 8) AND NOT (pixel_mask i))"
  have d: "image_buf (DrawPixel q x y c) = (image_buf q)[i div 8 := new]"
    using assms(1-4) by (simp add: DrawPixel_def Let_def i_def new_def)
  have n: "(image_buf q)[i div 8 := new] ! (i div 8) = new"
    using l by (simp add: i_def)
  have "new AND pixel_mask i \<noteq> 0 \<longleftrightarrow> c \<noteq> 0"
    by (simp add: new_def pixel_mask_set pixel_mask_clear pixel_mask_nz)
  then show ?thesis
    by (simp add: GetPixel_def Let_def d i_def[symmetric] n)
qed

lemma GetPixel_DrawPixel_other:
  assumes "0 \<le> x" "x < width q" "0 \<le> y" "y < height q" "(a, b) \<noteq> (x, y)"
  shows "GetPixel (DrawPixel q a b c) x y = GetPixel q x y"
proof (cases "a < 0 \<or> a \<ge> width q \<or> b < 0 \<or> b \<ge> height q")
  case True
  then show ?thesis by (simp add: DrawPixel_def)
next
  case False
  define i where "i = pixel_index q a b"
  define j where "j = pixel_index q x y"
  have ne: "i \<noteq> j"
    using pixel_index_inj[of x q a y b] assms False unfolding i_def j_def by auto
  define new where "new = (if c \<noteq> 0 then image_buf q ! (i div 8) OR pixel_mask i
                          else image_buf q ! (i div 8) AND NOT (pixel_mask i))"
  have d: "image_buf (DrawPixel q a b c) = (image_buf q)[i div 8 := new]"
    using False by (simp add: DrawPixel_def Let_def i_def new_def)
  have "(image_buf q)[i div 8 := new] ! (j div 8) AND pixel_mask j
          = image_buf q ! (j div 8) AND pixel_mask j"
  proof (cases "i div 8 = j div 8 \<and> i div 8 < length (image_buf q)")
    case True
    then have m: "i mod 8 \<noteq> j mod 8" using ne by (metis div_mult_mod_eq)
    show ?thesis
      using True m by (simp add: new_def pixel_mask_other_set pixel_mask_other_clear)
  next
    case False
    then show ?thesis by (cases "i div 8 = j div 8") (auto simp: list_update_beyond)
  qed
  then show ?thesis
    by (simp add: GetPixel_def Let_def d j_def[symmetric])
qed

lemma run_calls_pixel:
  assumes "0 \<le> x" "x < width q" "0 \<le> y" "y < height q"
    and "width q * height q \<le> 8 * int (length (image_buf q))"
    and "\<forall>c \<in> set cs. coords c = (x, y) \<longrightarrow> (if snd (snd c) \<noteq> 0 then WHITE else BLACK) = k"
  shows "GetPixel (run_calls q cs) x y = (if (x, y) \<in> coords ` set cs then k else GetPixel q x y)"
  using assms
proof (induction cs arbitrary: q)
  case Nil
  then show ?case by simp
next
  case (Cons c cs)
  obtain a b v where c: "c = (a, b, v)" by (cases c) auto
  let ?q = "DrawPixel q a b v"
  have ih: "GetPixel (run_calls ?q cs) x y
              = (if (x, y) \<in> coords ` set cs then k else GetPixel ?q x y)"
    using Cons.prems by (intro Cons.IH) simp_all
  show ?case
  proof (cases "(a, b) = (x, y)")
    case True
    have "GetPixel ?q x y = k"
      using GetPixel_DrawPixel_same[of x q y v] Cons.prems True by (simp add: c)
    then show ?thesis using ih True by (simp add: c)
  next
    case False
    have "GetPixel ?q x y = GetPixel q x y"
      using GetPixel_DrawPixel_other[of x q y a b v] Cons.prems False by simp
    then show ?thesis using ih False by (auto simp: c)
  qed
qed

section \<open>The file written by \<open>snapshot\<close>\<close>

lemma snapshot_cols_step:
  "col < width p \<Longrightarrow> snapshot_cols p row col =
     [snapshot_rgb p row col, snapshot_rgb p row col, snapshot_rgb p row col]
       @ snapshot_cols p row (col + 1)"
  by (subst snapshot_cols.simps) simp

lemma snapshot_cols_stop: "\<not> col < width p \<Longrightarrow> snapshot_cols p row col = []"
  by (subst snapshot_cols.simps) simp

lemma snapshot_rows_step:
  "0 \<le> row \<Longrightarrow> snapshot_rows p row = snapshot_row p row @ snapshot_rows p (row - 1)"
  by (subst snapshot_rows.simps) simp

lemma snapshot_rows_stop: "\<not> 0 \<le> row \<Longrightarrow> snapshot_rows p row = []"
  by (subst snapshot_rows.simps) simp

lemma snapshot_cols_length:
  "col \<le> width p \<Longrightarrow> length (snapshot_cols p row col) = 3 * nat (width p - col)"
proof (induction p row col rule: snapshot_cols.induct)
  case (1 p row col)
  show ?case
  proof (cases "col < width p")
    case True
    have "nat (width p - col) = Suc (nat (width p - (col + 1)))" using True by simp
    with "1.IH"[OF True] True show ?thesis by (simp add: snapshot_cols_step)
  next
    case False
    with "1.prems" show ?thesis by (simp add: snapshot_cols_stop)
  qed
qed

lemma snapshot_cols_nth:
  "col \<le> c \<Longrightarrow> c < width p \<Longrightarrow> k < 3 \<Longrightarrow>
   snapshot_cols p row col ! (3 * nat (c - col) + k) = snapshot_rgb p row c"
proof (induction p row col rule: snapshot_cols.induct)
  case (1 p row col)
  have lt: "col < width p" using "1.prems" by simp
  show ?case
  proof (cases "c = col")
    case True
    then show ?thesis using "1.prems"(3) lt
      by (cases k rule: nat.exhaust[case_product nat.exhaust])
         (auto simp: snapshot_cols_step nth_Cons' less_Suc_eq)
  next
    case False
    then have c: "col + 1 \<le> c" using "1.prems" by simp
    have e: "3 * nat (c - col) + k = 3 + (3 * nat (c - (col + 1)) + k)"
      using c by (simp add: nat_diff_distrib)
    from "1.IH"[OF lt c "1.prems"(2,3)] show ?thesis
      by (simp add: snapshot_cols_step[OF lt] e nth_Cons')
  qed
qed

text \<open>
  A row of the file is 3 bytes per pixel and \<open>4 - width % 4\<close> bytes of padding when the
  width is not a multiple of 4: a multiple of 4 exactly for the even widths.
\<close>

lemma snapshot_row_bytes:
  "0 \<le> width p \<Longrightarrow>
   int (length (snapshot_row p row))
     = 3 * width p + (if width p mod 4 \<noteq> 0 then 4 - width p mod 4 else 0)"
  by (simp add: snapshot_row_def snapshot_padding_def snapshot_cols_length)

lemma snapshot_row_padded_iff:
  assumes "0 \<le> width p"
  shows "4 dvd length (snapshot_row p row) \<longleftrightarrow> even (width p)"
proof -
  have "4 dvd length (snapshot_row p row) \<longleftrightarrow> 4 dvd int (length (snapshot_row p row))"
    by (metis int_dvd_int_iff of_nat_numeral)
  also have "\<dots> \<longleftrightarrow> 4 dvd 3 * width p + (if width p mod 4 \<noteq> 0 then 4 - width p mod 4 else 0)"
    by (simp only: snapshot_row_bytes[OF assms])
  also have "\<dots> \<longleftrightarrow> even (width p)" by presburger
  finally show ?thesis .
qed

lemma snapshot_row_unpadded:
  "width p mod 4 = 0 \<Longrightarrow> snapshot_row p row = snapshot_cols p row 0"
  by (simp add: snapshot_row_def snapshot_padding_def)

lemma snapshot_row_length:
  "width p mod 4 = 0 \<Longrightarrow> 0 \<le> width p \<Longrightarrow> length (snapshot_row p row) = 3 * nat (width p)"
  by (simp add: snapshot_row_unpadded snapshot_cols_length)

lemma snapshot_rows_length:
  "width p mod 4 = 0 \<Longrightarrow> 0 \<le> width p \<Longrightarrow> - 1 \<le> r \<Longrightarrow>
   length (snapshot_rows p r) = nat (r + 1) * (3 * nat (width p))"
proof (induction p r rule: snapshot_rows.induct)
  case (1 p row)
  show ?case
  proof (cases "0 \<le> row")
    case True
    have n: "nat (row + 1) = Suc (nat row)" using True by simp
    have "length (snapshot_rows p (row - 1)) = nat (row - 1 + 1) * (3 * nat (width p))"
      using True "1.prems" by (intro "1.IH") auto
    then show ?thesis using True "1.prems"
      by (simp add: snapshot_rows_step snapshot_row_length n)
  next
    case False
    with "1.prems" show ?thesis by (simp add: snapshot_rows_stop)
  qed
qed

lemma snapshot_rows_nth:
  "width p mod 4 = 0 \<Longrightarrow> 0 \<le> width p \<Longrightarrow> 0 \<le> j \<Longrightarrow> j \<le> r \<Longrightarrow> i < 3 * nat (width p) \<Longrightarrow>
   snapshot_rows p r ! (nat (r - j) * (3 * nat (width p)) + i) = snapshot_row p j ! i"
proof (induction p r rule: snapshot_rows.induct)
  case (1 p row)
  have r0: "0 \<le> row" using "1.prems" by simp
  note l = snapshot_row_length[OF "1.prems"(1,2), of row]
  show ?case
  proof (cases "j = row")
    case True
    then show ?thesis using "1.prems" l
      by (simp add: snapshot_rows_step[OF r0] nth_append)
  next
    case False
    then have j: "j \<le> row - 1" using "1.prems" by simp
    have e: "nat (row - j) = Suc (nat (row - 1 - j))" using j by simp
    from "1.IH"[OF r0 "1.prems"(1,2,3) j "1.prems"(5)] show ?thesis
      by (simp add: snapshot_rows_step[OF r0] nth_append l e)
  qed
qed

lemma header_length: "length (bmpfileheader p @ bmpinfoheader p) = 54"
  by (simp add: bmpfileheader_def bmpinfoheader_def le32_def)

lemma snapshot_length:
  assumes "width p mod 4 = 0" "0 \<le> width p" "0 \<le> height p"
  shows "length (snapshot p) = 54 + nat (height p) * (3 * nat (width p))"
  using snapshot_rows_length[OF assms(1,2), of "height p - 1"] assms(3) header_length[of p]
  by (simp add: snapshot_def)

lemma snapshot_nth:
  assumes "width p mod 4 = 0" "0 \<le> r" "r < height p" "0 \<le> c" "c < width p" "k < 3"
  shows "snapshot p ! (54 + nat (height p - 1 - r) * (3 * nat (width p)) + 3 * nat c + k)
           = snapshot_rgb p r c"
proof -
  have w: "0 \<le> width p" using assms by simp
  have i: "3 * nat c + k < 3 * nat (width p)" using assms by simp
  have "snapshot p ! (54 + (nat (height p - 1 - r) * (3 * nat (width p)) + (3 * nat c + k)))
          = snapshot_rows p (height p - 1) ! (nat (height p - 1 - r) * (3 * nat (width p)) + (3 * nat c + k))"
    using header_length[of p]
    by (simp add: snapshot_def nth_append del: append_assoc flip: append_assoc)
  also have "\<dots> = snapshot_row p r ! (3 * nat c + k)"
    using assms w i by (intro snapshot_rows_nth) auto
  also have "\<dots> = snapshot_rgb p r c"
    using snapshot_cols_nth[of 0 c p k r] assms
    by (simp add: snapshot_row_unpadded)
  finally show ?thesis by (simp add: add.assoc)
qed

lemma int32_signed: "int32 v = signed_take_bit 31 v"
  by (simp add: int32_def signed_take_bit_eq_take_bit_shift take_bit_eq_mod)

lemma bit_byte_of: "bit (byte_of v k) m \<longleftrightarrow> m < 8 \<and> bit (int32 v) (k + m)"
proof -
  have "byte_of v k = of_int (drop_bit k (int32 v))"
    by (simp add: byte_of_def drop_bit_eq_div)
  then show ?thesis by (simp add: bit_word_of_int_iff bit_drop_bit_eq)
qed

lemma word32_le_bytes:
  "word32_le (byte_of v 0) (byte_of v 8) (byte_of v 16) (byte_of v 24) = of_int v"
proof (rule bit_word_eqI)
  fix n assume n: "n < LENGTH(32)"
  have b: "bit (int32 v) n = bit v n"
  proof (cases "n < 31")
    case True
    then show ?thesis by (simp add: int32_signed bit_signed_take_bit_iff min_def)
  next
    case False
    with n have "n = 31" by simp
    then show ?thesis by (simp add: int32_signed bit_signed_take_bit_iff)
  qed
  consider "n < 8" | "8 \<le> n" "n < 16" | "16 \<le> n" "n < 24" | "24 \<le> n" "n < 32"
    using n by fastforce
  then have "bit (word32_le (byte_of v 0) (byte_of v 8) (byte_of v 16) (byte_of v 24)) n
              = bit (int32 v) n"
    by cases (auto simp: word32_le_def bit_or_iff bit_push_bit_iff bit_ucast_iff bit_byte_of)
  with b show "bit (word32_le (byte_of v 0) (byte_of v 8) (byte_of v 16) (byte_of v 24)) n
                = bit (word_of_int v :: u32) n"
    using n by (simp add: bit_word_of_int_iff)
qed

lemma word_le_consts:
  "word16_le 0x42 0x4D = 0x4D42" "word16_le 1 0 = 1" "word16_le 24 0 = 24"
  "word32_le 0 0 0 0 = 0" "word32_le 54 0 0 0 = 54" "word32_le 40 0 0 0 = 40"
  by (simp_all add: word16_le_def word32_le_def)

lemma snapshot_prefix:
  "snapshot p =
     [0x42, 0x4D, byte_of (14 + 40 + 3 * width p * height p) 0,
      byte_of (14 + 40 + 3 * width p * height p) 8,
      byte_of (14 + 40 + 3 * width p * height p) 16,
      byte_of (14 + 40 + 3 * width p * height p) 24,
      0, 0, 0, 0, 54, 0, 0, 0, 40, 0, 0, 0,
      byte_of (width p) 0, byte_of (width p) 8, byte_of (width p) 16, byte_of (width p) 24,
      byte_of (height p) 0, byte_of (height p) 8, byte_of (height p) 16, byte_of (height p) 24,
      1, 0, 24, 0, 0, 0, 0, 0]
     @ replicate 20 0 @ snapshot_rows p (height p - 1)"
proof -
  have r: "replicate 24 (0::u8) = [0, 0, 0, 0] @ replicate 20 0" by code_simp
  show ?thesis
    by (simp add: snapshot_def bmpfileheader_def bmpinfoheader_def le32_def r)
qed

lemma parse_header_snapshot:
  "parse_header \<lparr>content = snapshot p, position = 0\<rparr> = Inr (Some (snapshot_hdr p))"
  unfolding snapshot_hdr_def
  apply (subst snapshot_prefix)
  apply (simp add: parse_header_def with16_def with32_def read16_def read32_def fread_def
      word_le_consts word32_le_bytes)
  apply (simp add: snapshot_prefix)
  done

section \<open>The read buffer of the bitmap decoder\<close>

lemma reload_buf:
  assumes "buf_inv st q" "buffidx st \<ge> sizeof_sdbuffer"
  shows "buf_inv (reload st) q" "content (bmpFile (reload st)) = content (bmpFile st)"
proof -
  let ?c = "content (bmpFile st)"
  let ?bs = "take sizeof_sdbuffer (drop (position (bmpFile st)) ?c)"
  have b: "buffidx st = sizeof_sdbuffer" using assms by (simp add: buf_inv_def)
  have p: "position (bmpFile st) = min (length ?c) q" using assms(1) b by (simp add: buf_inv_def)
  have l: "length (sdbuffer st) = sizeof_sdbuffer" using assms(1) by (simp add: buf_inv_def)
  have f: "bmpFile (reload st) = (bmpFile st)\<lparr>position := position (bmpFile st) + length ?bs\<rparr>"
    by (simp add: reload_def fread_def Let_def)
  have s: "sdbuffer (reload st) = ?bs @ drop (length ?bs) (sdbuffer st)"
    by (simp add: reload_def fread_def Let_def)
  show c: "content (bmpFile (reload st)) = content (bmpFile st)" by (simp add: f)
  have lb: "length ?bs = min sizeof_sdbuffer (length ?c - min (length ?c) q)"
    by (simp add: p min.commute)
  have n: "sdbuffer (reload st) ! j = ?c ! (q + j)"
    if "j < sizeof_sdbuffer" "q + j < length ?c" for j
  proof -
    have q: "min (length ?c) q = q" using that by simp
    have "j < length ?bs" using that by (simp add: p q)
    then have "sdbuffer (reload st) ! j = ?bs ! j" by (simp add: s nth_append)
    also have "\<dots> = ?c ! (q + j)" using that by (simp add: p q)
    finally show ?thesis .
  qed
  have pos: "position (bmpFile (reload st)) = min (length ?c) (q + sizeof_sdbuffer)"
    by (simp add: f p lb)
  show "buf_inv (reload st) q"
    unfolding buf_inv_def
    using n pos by (simp add: reload_fields c) (simp add: s l)
qed

lemma pixel_step_buf:
  assumes "buf_inv st q" "q + 3 \<le> length (content (bmpFile st))"
  shows "buf_inv (pixel_step st row col) (q + 3)"
    and "next_colour st = pixel_at (content (bmpFile st)) q"
    and "content (bmpFile (pixel_step st row col)) = content (bmpFile st)"
proof -
  define st1 where "st1 = (if buffidx st \<ge> sizeof_sdbuffer then reload st else st)"
  have i1: "buf_inv st1 q" and c1: "content (bmpFile st1) = content (bmpFile st)"
    using assms(1) reload_buf[of st q] by (auto simp: st1_def)
  have b1: "buffidx st1 < sizeof_sdbuffer"
    using assms(1) by (auto simp: st1_def reload_fields sizeof_sdbuffer_def BUFFPIXEL_def buf_inv_def)
  have d1: "3 dvd buffidx st1" using i1 by (simp add: buf_inv_def)
  have b2: "buffidx st1 + 2 < sizeof_sdbuffer"
    using b1 d1 by (auto simp: sizeof_sdbuffer_def BUFFPIXEL_def elim!: dvdE)
  have n: "sdbuffer st1 ! (buffidx st1 + k) = content (bmpFile st) ! (q + k)" if "k < 3" for k
    using i1 that b2 assms(2) unfolding buf_inv_def c1
    by (elim conjE allE[of _ "buffidx st1 + k"]) simp
  have s1: "sdbuffer (if buffidx st \<ge> sizeof_sdbuffer then reload (flush_lcd st row col) else st)
              = sdbuffer st1"
    and f1: "bmpFile (if buffidx st \<ge> sizeof_sdbuffer then reload (flush_lcd st row col) else st)
              = bmpFile st1"
    and x1: "buffidx (if buffidx st \<ge> sizeof_sdbuffer then reload (flush_lcd st row col) else st)
              = buffidx st1"
    by (simp_all add: st1_def reload_flush reload_fields)
  show "next_colour st = pixel_at (content (bmpFile st)) q"
    using n[of 0] n[of 1] n[of 2]
    by (simp add: next_colour_def pixel_at_def Let_def st1_def[symmetric])
  show "content (bmpFile (pixel_step st row col)) = content (bmpFile st)"
    by (simp add: pixel_step_def Let_def f1 c1)
  have "buf_inv (st1\<lparr>buffidx := buffidx st1 + 3\<rparr>) (q + 3)"
    unfolding buf_inv_def
  proof (intro conjI allI impI)
    show "length (sdbuffer (st1\<lparr>buffidx := buffidx st1 + 3\<rparr>)) = sizeof_sdbuffer"
      using i1 by (simp add: buf_inv_def)
    show "buffidx (st1\<lparr>buffidx := buffidx st1 + 3\<rparr>) \<le> sizeof_sdbuffer"
      using b2 by simp
    show "3 dvd buffidx (st1\<lparr>buffidx := buffidx st1 + 3\<rparr>)"
      using d1 by simp
    show "position (bmpFile (st1\<lparr>buffidx := buffidx st1 + 3\<rparr>))
            = min (length (content (bmpFile (st1\<lparr>buffidx := buffidx st1 + 3\<rparr>))))
                (q + 3 + (sizeof_sdbuffer - buffidx (st1\<lparr>buffidx := buffidx st1 + 3\<rparr>)))"
    proof -
      have "q + 3 + (sizeof_sdbuffer - (buffidx st1 + 3)) = q + (sizeof_sdbuffer - buffidx st1)"
        using b2 by simp
      then show ?thesis using i1 by (simp add: buf_inv_def)
    qed
  next
    fix j
    assume a: "buffidx (st1\<lparr>buffidx := buffidx st1 + 3\<rparr>) \<le> j \<and> j < sizeof_sdbuffer
               \<and> q + 3 + (j - buffidx (st1\<lparr>buffidx := buffidx st1 + 3\<rparr>))
                   < length (content (bmpFile (st1\<lparr>buffidx := buffidx st1 + 3\<rparr>)))"
    then have e: "q + 3 + (j - (buffidx st1 + 3)) = q + (j - buffidx st1)" by simp
    have "sdbuffer st1 ! j = content (bmpFile st1) ! (q + (j - buffidx st1))"
      using i1 a e unfolding buf_inv_def by (elim conjE allE[of _ j]) simp
    then show "sdbuffer (st1\<lparr>buffidx := buffidx st1 + 3\<rparr>) ! j
                 = content (bmpFile (st1\<lparr>buffidx := buffidx st1 + 3\<rparr>))
                     ! (q + 3 + (j - buffidx (st1\<lparr>buffidx := buffidx st1 + 3\<rparr>)))"
      using e by simp
  qed
  then show "buf_inv (pixel_step st row col) (q + 3)"
    by (simp add: buf_inv_def pixel_step_def Let_def s1 f1 x1) blast
qed

lemma col_loop_buf:
  "buf_inv st q \<Longrightarrow> lcd_inv st \<Longrightarrow> col \<le> w
   \<Longrightarrow> q + 3 * nat (w - col) \<le> length (content (bmpFile st))
   \<Longrightarrow> buf_inv (fst (col_loop st row col w)) (q + 3 * nat (w - col))
       \<and> content (bmpFile (fst (col_loop st row col w))) = content (bmpFile st)
       \<and> all_calls (fst (col_loop st row col w)) row w
           = all_calls st row col
             @ map (\<lambda>c. (row, c, pixel_at (content (bmpFile st)) (q + 3 * nat (c - col))))
                 [col..w - 1]"
proof (induction st row col w arbitrary: q rule: col_loop.induct)
  case (1 st row col w)
  show ?case
  proof (cases "col < w")
    case True
    have q3: "q + 3 \<le> length (content (bmpFile st))" using "1.prems"(4) True by simp
    note pb = pixel_step_buf(1)[OF "1.prems"(1) q3, of row col]
      pixel_step_buf(2)[OF "1.prems"(1) q3]
      pixel_step_buf(3)[OF "1.prems"(1) q3, of row col]
    note pc = pixel_step_calls[OF "1.prems"(2), of row col]
    have n: "nat (w - col) = Suc (nat (w - (col + 1)))" using True by simp
    have e: "q + 3 + 3 * nat (w - (col + 1)) = q + 3 * nat (w - col)" by (simp add: n)
    have u: "[col..w - 1] = col # [col + 1..w - 1]" using True by (simp add: upto_rec1)
    have m: "map (\<lambda>c. (row, c, pixel_at (content (bmpFile st)) (q + 3 + 3 * nat (c - (col + 1)))))
                 [col + 1..w - 1]
             = map (\<lambda>c. (row, c, pixel_at (content (bmpFile st)) (q + 3 * nat (c - col))))
                 [col + 1..w - 1]"
    proof (rule map_cong[OF refl])
      fix c assume "c \<in> set [col + 1..w - 1]"
      then have "col + 1 \<le> c" by simp
      then have "q + 3 + 3 * nat (c - (col + 1)) = q + 3 * nat (c - col)" by linarith
      then show "(row, c, pixel_at (content (bmpFile st)) (q + 3 + 3 * nat (c - (col + 1))))
                 = (row, c, pixel_at (content (bmpFile st)) (q + 3 * nat (c - col)))"
        by (simp only:)
    qed
    have ih: "buf_inv (fst (col_loop (pixel_step st row col) row (col + 1) w))
                (q + 3 + 3 * nat (w - (col + 1)))
       \<and> content (bmpFile (fst (col_loop (pixel_step st row col) row (col + 1) w)))
           = content (bmpFile (pixel_step st row col))
       \<and> all_calls (fst (col_loop (pixel_step st row col) row (col + 1) w)) row w
           = all_calls (pixel_step st row col) row (col + 1)
             @ map (\<lambda>c. (row, c, pixel_at (content (bmpFile (pixel_step st row col)))
                                    (q + 3 + 3 * nat (c - (col + 1)))))
                 [col + 1..w - 1]"
      using True "1.prems"(4) by (intro "1.IH"[OF True pb(1) pc(2)]) (simp_all add: pb(3) e)
    show ?thesis
      using ih by (simp add: col_loop_step[OF True] pb(2,3) pc(1) e u m)
  next
    case False
    then have "col = w" using "1.prems"(3) by simp
    then show ?thesis using "1.prems"(1) by (simp add: col_loop_stop)
  qed
qed

lemma scanline_buf:
  assumes "row_inv st" "length (sdbuffer st) = sizeof_sdbuffer"
    and "position (bmpFile st) \<noteq> unat pos" "pos = row_pos flip off bh rs row"
    and "0 \<le> w" "unat pos + 3 * nat w \<le> length (content (bmpFile st))"
  shows "row_inv (scanline flip off bh rs w st row)
         \<and> length (sdbuffer (scanline flip off bh rs w st row)) = sizeof_sdbuffer
         \<and> content (bmpFile (scanline flip off bh rs w st row)) = content (bmpFile st)
         \<and> calls (scanline flip off bh rs w st row)
             = calls st @ map (\<lambda>c. (row, c, pixel_at (content (bmpFile st)) (unat pos + 3 * nat c)))
                            [0..w - 1]
         \<and> unat pos + 3 * nat w \<le> position (bmpFile (scanline flip off bh rs w st row))"
proof -
  define st1 where "st1 = seek_row st pos"
  have s1: "st1 = st\<lparr>bmpFile := fseek (bmpFile st) (unat pos), buffidx := sizeof_sdbuffer\<rparr>"
    using assms(3) by (simp add: st1_def seek_row_def)
  have c1: "content (bmpFile st1) = content (bmpFile st)" by (simp add: s1 fseek_def)
  have li: "lcd_inv st1" using assms(1) by (simp add: s1 lcd_inv_def row_inv_def)
  have bi: "buf_inv st1 (unat pos)"
    using assms(2,6) by (auto simp: buf_inv_def s1 fseek_def sizeof_sdbuffer_def BUFFPIXEL_def)
  have a1: "all_calls st1 row 0 = calls st"
    using assms(1) by (simp add: s1 all_calls_def row_inv_def pushColours_def)
  define st2 where "st2 = fst (col_loop st1 row 0 w)"
  have cl: "buf_inv st2 (unat pos + 3 * nat w)"
    "content (bmpFile st2) = content (bmpFile st)"
    "all_calls st2 row w
       = calls st @ map (\<lambda>c. (row, c, pixel_at (content (bmpFile st)) (unat pos + 3 * nat c)))
                      [0..w - 1]"
    using col_loop_buf[OF bi li assms(5), of row] assms(6)
    by (simp_all add: st2_def c1 a1)
  have cc: "lcd_inv st2" "snd (col_loop st1 row 0 w) = w"
    using col_loop_calls[OF li, of row 0 w] assms(5) by (simp_all add: st2_def)
  have sc: "scanline flip off bh rs w st row = flush_lcd st2 row w"
    using cc(2) by (auto simp: scanline_def Let_def assms(4) st1_def st2_def split: prod.splits)
  have "position (bmpFile st2)
          = min (length (content (bmpFile st)))
              (unat pos + 3 * nat w + (sizeof_sdbuffer - buffidx st2))"
    using cl(1,2) by (simp add: buf_inv_def)
  then have pos: "unat pos + 3 * nat w \<le> position (bmpFile st2)"
    using assms(6) by linarith
  show ?thesis
    using cl cc(1) pos
    by (simp add: sc flush_lcd_calls flush_lcd_fields row_inv_def lcd_inv_def buf_inv_def)
qed

section \<open>Decoding a snapshot\<close>

lemma dims_bounds:
  assumes "0 < width p" "0 < height p" "width p * height p \<le> 40000"
  shows "width p \<le> 40000" "height p \<le> 40000"
proof -
  have "width p * 1 \<le> width p * height p" using assms by (intro mult_left_mono) auto
  then show "width p \<le> 40000" using assms(3) by simp
  have "1 * height p \<le> width p * height p" using assms by (intro mult_right_mono) auto
  then show "height p \<le> 40000" using assms(3) by simp
qed

lemma rowSize_snapshot:
  assumes "width p mod 4 = 0" "0 \<le> width p" "width p \<le> 40000"
  shows "rowSize_of (of_int (width p)) = of_int (3 * width p)"
proof -
  have s: "sint (of_int (width p) :: u32) = width p"
    using assms by (simp add: sint_sbintrunc' signed_take_bit_int_eq_self)
  have m: "(width p * 3 + 3) mod 2 ^ 32 = width p * 3 + 3"
    using assms by (intro mod_pos_pos_trivial) auto
  have d: "(width p * 3 + 3) div 4 * 4 = 3 * width p" using assms(1) by presburger
  have "uint (rowSize_of (of_int (width p))) = 3 * width p"
    by (simp only: rowSize_uint s m d)
  then have "word_of_int (uint (rowSize_of (of_int (width p)))) = (word_of_int (3 * width p) :: u32)"
    by simp
  then show ?thesis by (simp only: word_of_int_uint)
qed

lemma row_offset_bound:
  assumes "0 < width p" "0 < height p" "width p * height p \<le> 40000" "0 \<le> r" "r < height p"
  shows "(height p - 1 - r) * (3 * width p) + 3 * width p \<le> 120000"
    and "0 \<le> (height p - 1 - r) * (3 * width p)"
proof -
  have "(height p - 1 - r + 1) * width p \<le> height p * width p"
    using assms by (intro mult_right_mono) auto
  then have "(height p - 1 - r) * width p + width p \<le> 40000"
    using assms(3) by (simp add: algebra_simps)
  then show "(height p - 1 - r) * (3 * width p) + 3 * width p \<le> 120000" by simp
  show "0 \<le> (height p - 1 - r) * (3 * width p)" using assms by simp
qed

lemma row_pos_snapshot:
  assumes "0 < width p" "0 < height p" "width p * height p \<le> 40000" "0 \<le> r" "r < height p"
  shows "unat (row_pos True 54 (height p) (of_int (3 * width p)) r)
           = 54 + nat (height p - 1 - r) * (3 * nat (width p))"
proof -
  define v where "v = 54 + (height p - 1 - r) * (3 * width p)"
  note b = row_offset_bound[OF assms]
  have v: "0 \<le> v" "v < 2 ^ 32" using b assms(1) by (simp_all add: v_def)
  have "row_pos True 54 (height p) (of_int (3 * width p)) r = (of_int v :: u32)"
    by (simp add: row_pos_def v_def)
  also have "unat (of_int v :: u32) = nat v"
    using v by (simp add: unat_eq_nat_uint uint_word_of_int mod_pos_pos_trivial)
  also have "nat v = 54 + nat (height p - 1 - r) * (3 * nat (width p))"
    using assms b(2) by (simp add: v_def nat_add_distrib nat_mult_distrib)
  finally show ?thesis .
qed

lemma thr_GetPixel: "(if GetPixel p a b \<noteq> 0 then WHITE else BLACK) = GetPixel p a b"
  by (simp add: GetPixel_def WHITE_def BLACK_def Let_def)

lemma snapshot_rgb_GetPixel:
  assumes "width p mod 8 = 0" "0 \<le> width p" "0 \<le> r" "0 \<le> c"
  shows "(if colour_of (snapshot_rgb p r c) (snapshot_rgb p r c) (snapshot_rgb p r c) \<noteq> 0
          then WHITE else BLACK) = GetPixel p c r"
proof -
  have n: "0 \<le> r * width p + c" using assms by simp
  have 1: "nat ((r * width p + c) div 8) = pixel_index p c r div 8"
    using n by (simp add: pixel_index_def nat_div_distrib)
  have "(r * width p + c) mod 8 = c mod 8"
    using assms(1) by (metis mod_add_left_eq mod_mult_right_eq mult_zero_right add_0 mod_mod_trivial)
  moreover have "nat ((r * width p + c) mod 8) = nat (r * width p + c) mod 8"
    using n by (simp add: nat_mod_distrib)
  ultimately have 2: "nat (c mod 8) = pixel_index p c r mod 8"
    by (simp add: pixel_index_def)
  show ?thesis
    by (simp add: colour_of_eq snapshot_rgb_def GetPixel_def Let_def pixel_mask_def 1 2)
qed

lemma pixel_at_snapshot:
  assumes "width p mod 8 = 0" "0 < width p" "0 \<le> r" "r < height p" "0 \<le> c" "c < width p"
  shows "pixel_at (snapshot p) (54 + nat (height p - 1 - r) * (3 * nat (width p)) + 3 * nat c)
           = GetPixel p c r"
proof -
  have m4: "width p mod 4 = 0" using assms(1) by presburger
  note n = snapshot_nth[OF m4 assms(3-6)]
  have w: "0 \<le> width p" using assms(2) by simp
  show ?thesis
    using n[of 0] n[of 1] n[of 2] snapshot_rgb_GetPixel[OF assms(1) w assms(3,5)]
    by (simp add: pixel_at_def add.assoc)
qed

lemma row_loop_snapshot:
  assumes "width p mod 8 = 0" "0 < width p" "0 < height p" "width p * height p \<le> 40000"
  shows "row_inv st \<Longrightarrow> length (sdbuffer st) = sizeof_sdbuffer
     \<Longrightarrow> content (bmpFile st) = snapshot p \<Longrightarrow> 0 \<le> r
     \<Longrightarrow> position (bmpFile st) < 54
          \<or> 54 + nat (height p - 1 - r) * (3 * nat (width p)) < position (bmpFile st)
     \<Longrightarrow> calls (row_loop True 54 (height p) (of_int (3 * width p)) (width p) (height p) st r)
           = calls st @ transposed_calls p r"
proof (induction "nat (height p - r)" arbitrary: st r)
  case 0
  then have "\<not> r < height p" by simp
  then show ?case by (simp add: row_loop_stop transposed_calls_def)
next
  case (Suc n)
  have lt: "r < height p" using Suc.hyps(2) by simp
  have m4: "width p mod 4 = 0" using assms(1) by presburger
  define pos where "pos = row_pos True 54 (height p) (of_int (3 * width p)) r"
  have up: "unat pos = 54 + nat (height p - 1 - r) * (3 * nat (width p))"
    unfolding pos_def using assms(2-4) Suc.prems(4) lt by (rule row_pos_snapshot)
  have ne: "position (bmpFile st) \<noteq> unat pos" using Suc.prems(5) unfolding up by linarith
  have len: "length (snapshot p) = 54 + nat (height p) * (3 * nat (width p))"
    using m4 assms(2,3) by (intro snapshot_length) auto
  have "nat (height p - 1 - r) + 1 \<le> nat (height p)" using lt Suc.prems(4) by simp
  then have "(nat (height p - 1 - r) + 1) * (3 * nat (width p)) \<le> nat (height p) * (3 * nat (width p))"
    by (rule mult_le_mono1)
  then have fit: "unat pos + 3 * nat (width p) \<le> length (content (bmpFile st))"
    by (simp add: up len Suc.prems(3))
  define st' where "st' = scanline True 54 (height p) (of_int (3 * width p)) (width p) st r"
  have w0: "0 \<le> width p" using assms(2) by simp
  note sb = scanline_buf[OF Suc.prems(1,2) ne pos_def w0 fit, folded st'_def]
  have cs: "calls st' = calls st @ map (\<lambda>c. (r, c, GetPixel p c r)) [0..width p - 1]"
  proof -
    have "map (\<lambda>c. (r, c, pixel_at (content (bmpFile st)) (unat pos + 3 * nat c))) [0..width p - 1]
            = map (\<lambda>c. (r, c, GetPixel p c r)) [0..width p - 1]"
    proof (rule map_cong[OF refl])
      fix c assume "c \<in> set [0..width p - 1]"
      then have c: "0 \<le> c" "c < width p" by simp_all
      show "(r, c, pixel_at (content (bmpFile st)) (unat pos + 3 * nat c)) = (r, c, GetPixel p c r)"
        using pixel_at_snapshot[OF assms(1,2) Suc.prems(4) lt c]
        by (simp add: up Suc.prems(3))
    qed
    then show ?thesis using sb by simp
  qed
  have p': "position (bmpFile st') < 54
            \<or> 54 + nat (height p - 1 - (r + 1)) * (3 * nat (width p)) < position (bmpFile st')"
  proof -
    have "nat (height p - 1 - (r + 1)) \<le> nat (height p - 1 - r)" by simp
    then have "nat (height p - 1 - (r + 1)) * (3 * nat (width p))
                 \<le> nat (height p - 1 - r) * (3 * nat (width p))"
      by (rule mult_le_mono1)
    moreover have "0 < 3 * nat (width p)" using assms(2) by simp
    moreover have "unat pos + 3 * nat (width p) \<le> position (bmpFile st')" using sb by simp
    ultimately show ?thesis unfolding up by linarith
  qed
  have n: "n = nat (height p - (r + 1))" using Suc.hyps(2) by simp
  have ih: "calls (row_loop True 54 (height p) (of_int (3 * width p)) (width p) (height p) st' (r + 1))
              = calls st' @ transposed_calls p (r + 1)"
    using sb Suc.prems(3,4) p' by (intro Suc.hyps(1)[OF n]) simp_all
  have u: "[r..height p - 1] = r # [r + 1..height p - 1]" using lt by (simp add: upto_rec1)
  have "calls (row_loop True 54 (height p) (of_int (3 * width p)) (width p) (height p) st r)
          = calls st' @ transposed_calls p (r + 1)"
    using row_loop_step[OF lt, of True 54 "height p" "of_int (3 * width p)" "width p" st] ih
    unfolding st'_def by (simp only:)
  also have "\<dots> = calls st @ transposed_calls p r"
    unfolding cs transposed_calls_def u by simp
  finally show ?case .
qed

lemma crop_same:
  assumes "0 < w" "w \<le> 40000"
  shows "crop 0 w w = w"
proof -
  have "int32 w = w" using assms by (intro int32_id) auto
  moreover have "int32 (w - 1) = w - 1" using assms by (intro int32_id) auto
  ultimately show ?thesis by (simp add: crop_def)
qed

lemma decode_snapshot:
  assumes "width p mod 8 = 0" "0 < width p" "0 < height p" "width p * height p \<le> 40000"
    and "width q = width p" "height q = height p"
    and "length sd0 = sizeof_sdbuffer" "length lcd0 = BUFFPIXEL"
  shows "calls (decode q sd0 lcd0 (snapshot_hdr p) 0 0) = transposed_calls p 0"
proof -
  note d = dims_bounds[OF assms(2-4)]
  have m4: "width p mod 4 = 0" using assms(1) by presburger
  have sw: "sint (of_int (width p) :: u32) = width p"
    using assms(2) d by (simp add: sint_sbintrunc' signed_take_bit_int_eq_self)
  have sh: "sint (of_int (height p) :: u32) = height p"
    using assms(3) d by (simp add: sint_sbintrunc' signed_take_bit_int_eq_self)
  have rs: "rowSize_of (hdr_width (snapshot_hdr p)) = of_int (3 * width p)"
    using rowSize_snapshot[OF m4 _ d(1)] assms(2) by (simp add: snapshot_hdr_def)
  have fl: "flip_of (hdr_height (snapshot_hdr p)) = True"
    using assms(3) by (simp add: flip_of_def snapshot_hdr_def sh)
  have ht: "height_of (hdr_height (snapshot_hdr p)) = height p"
    using assms(3) by (simp add: height_of_def snapshot_hdr_def sh)
  have cw: "crop 0 (sint (hdr_width (snapshot_hdr p))) (width q) = width p"
    using crop_same[OF assms(2) d(1)] by (simp add: snapshot_hdr_def sw assms(5))
  have ch: "crop 0 (height p) (height q) = height p"
    using crop_same[OF assms(3) d(2)] by (simp add: assms(6))
  define st0 where "st0 = \<lparr>bmpFile = hdr_file (snapshot_hdr p), sdbuffer = sd0,
      buffidx = sizeof_sdbuffer, lcdbuffer = lcd0, lcdidx = 0, calls = []\<rparr>"
  have "decode q sd0 lcd0 (snapshot_hdr p) 0 0
          = row_loop True 54 (height p) (of_int (3 * width p)) (width p) (height p) st0 0"
    unfolding decode_def Let_def rs fl ht cw ch st0_def by (simp add: snapshot_hdr_def)
  moreover have "calls (row_loop True 54 (height p) (of_int (3 * width p)) (width p) (height p) st0 0)
                   = calls st0 @ transposed_calls p 0"
    using assms(7,8)
    by (intro row_loop_snapshot[OF assms(1-4)]) (simp_all add: st0_def row_inv_def snapshot_hdr_def)
  ultimately show ?thesis by (simp add: st0_def)
qed

lemma set_transposed_calls:
  "set (transposed_calls p 0)
     = {(r, c, GetPixel p c r) | r c. 0 \<le> r \<and> r < height p \<and> 0 \<le> c \<and> c < width p}"
  by (auto simp: transposed_calls_def)

section \<open>The bitmap decoder as the code has it\<close>

text \<open>
  The row stride \<open>(width*3 + 3) & ~3\<close> equals \<open>((width*3 + 3) / 4) * 4\<close>: in the unsigned
  32-bit arithmetic of \<open>rowSize\<close> for every width field, as an integer with the byte count
  \<open>width*3 + 3\<close> taken modulo \<open>2^32\<close>, and as the plain integer \<open>((width*3 + 3) div 4) * 4\<close>
  for a non-negative width whose byte count does not overflow.  When the height field of
  the header is positive the flip flag is true and the offset computed for scanline \<open>r\<close>
  is \<open>bmpImageoffset + (height-1-r) * rowSize\<close>; when it is negative the flip flag is false
  and the offset is \<open>bmpImageoffset + r * rowSize\<close>.  After the conditional seek the file
  cursor stands at that offset.  This says nothing of the bytes that the column loop then
  takes from its read buffer.
\<close>

lemma row_offsets:
  "rowSize_of bw = (bw * 3 + 3) div 4 * 4
   \<and> uint (rowSize_of bw) = ((sint bw * 3 + 3) mod 2 ^ 32) div 4 * 4
   \<and> (0 \<le> sint bw \<and> sint bw * 3 + 3 < 2 ^ 31
        \<longrightarrow> uint (rowSize_of bw) = (sint bw * 3 + 3) div 4 * 4)
   \<and> (0 < sint bh \<longrightarrow>
        flip_of bh
        \<and> row_pos (flip_of bh) off (height_of bh) (rowSize_of bw) r
            = off + of_int (sint bh - 1 - r) * rowSize_of bw
        \<and> position (bmpFile (seek_row st (row_pos (flip_of bh) off (height_of bh) (rowSize_of bw) r)))
            = unat (off + of_int (sint bh - 1 - r) * rowSize_of bw))
   \<and> (sint bh < 0 \<longrightarrow>
        \<not> flip_of bh
        \<and> row_pos (flip_of bh) off (height_of bh) (rowSize_of bw) r
            = off + of_int r * rowSize_of bw
        \<and> position (bmpFile (seek_row st (row_pos (flip_of bh) off (height_of bh) (rowSize_of bw) r)))
            = unat (off + of_int r * rowSize_of bw))"
proof -
  have 1: "rowSize_of bw = (bw * 3 + 3) div 4 * 4" by (rule rowSize_word)
  have 2: "uint (rowSize_of bw) = ((sint bw * 3 + 3) mod 2 ^ 32) div 4 * 4" by (rule rowSize_uint)
  have 3: "0 \<le> sint bw \<and> sint bw * 3 + 3 < 2 ^ 31
             \<longrightarrow> uint (rowSize_of bw) = (sint bw * 3 + 3) div 4 * 4"
    using rowSize_int[of bw] by blast
  have 4: "0 < sint bh \<longrightarrow>
        flip_of bh
        \<and> row_pos (flip_of bh) off (height_of bh) (rowSize_of bw) r
            = off + of_int (sint bh - 1 - r) * rowSize_of bw
        \<and> position (bmpFile (seek_row st (row_pos (flip_of bh) off (height_of bh) (rowSize_of bw) r)))
            = unat (off + of_int (sint bh - 1 - r) * rowSize_of bw)"
    by (simp add: seek_row_position flip_of_def height_of_def row_pos_def)
  have 5: "sint bh < 0 \<longrightarrow>
        \<not> flip_of bh
        \<and> row_pos (flip_of bh) off (height_of bh) (rowSize_of bw) r
            = off + of_int r * rowSize_of bw
        \<and> position (bmpFile (seek_row st (row_pos (flip_of bh) off (height_of bh) (rowSize_of bw) r)))
            = unat (off + of_int r * rowSize_of bw)"
    by (simp add: seek_row_position flip_of_def height_of_def row_pos_def)
  from 1 2 3 4 5 show ?thesis by blast
qed

lemma row_offsets_5:
  "0 < sint (2 :: u32) \<and> sint (- 2 :: u32) < 0
   \<and> 0 \<le> sint (5 :: u32) \<and> sint (5 :: u32) * 3 + 3 < 2 ^ 31 \<and> uint (rowSize_of 5) = 16
   \<and> row_pos (flip_of 2) 54 (height_of 2) (rowSize_of 5) 0 = 70
   \<and> row_pos (flip_of (- 2)) 54 (height_of (- 2)) (rowSize_of 5) 1 = 70"
proof -
  have p: "0 < sint (2 :: u32)" by simp
  have n: "sint (- 2 :: u32) < 0" by simp
  have w: "0 \<le> sint (5 :: u32) \<and> sint (5 :: u32) * 3 + 3 < 2 ^ 31" by simp
  from row_offsets[of 5 2 54 0 undefined] w
  have u: "uint (rowSize_of 5) = (sint (5 :: u32) * 3 + 3) div 4 * 4"
    by blast
  from row_offsets[of 5 2 54 0 undefined] p
  have a: "row_pos (flip_of 2) 54 (height_of 2) (rowSize_of 5) 0
             = 54 + of_int (sint (2 :: u32) - 1 - 0) * rowSize_of 5"
    by blast
  from row_offsets[of 5 "- 2" 54 1 undefined] n
  have b: "row_pos (flip_of (- 2)) 54 (height_of (- 2)) (rowSize_of 5) 1
             = 54 + of_int 1 * rowSize_of 5"
    by blast
  have r: "rowSize_of 5 = 16" by (simp add: rowSize_of_def)
  show ?thesis using p n w u a b r by simp
qed

text \<open>
  The bounds of the decode loop.  For offsets \<open>0 \<le> x < width\<close> and \<open>0 \<le> y < height\<close> (with
  \<open>x + bmpWidth\<close> and \<open>y + bmpHeight\<close> inside the range of \<open>int\<close>), the clipped column count
  \<open>w\<close> is at most \<open>width - x\<close> and the clipped row count \<open>h\<close> at most \<open>height - y\<close>; every
  \<open>DrawPixel\<close> call of the decode loop is for a scanline row \<open>r < h\<close> and a column \<open>c < w\<close>,
  and \<open>pushColours\<close> passes \<open>r\<close> as the x coordinate and \<open>c\<close> as the y coordinate.  So the
  bytes of the backing buffer that the code leaves unchanged are those that hold none of
  the pixels \<open>(x = r, y = c)\<close> with \<open>r < min h width\<close> and \<open>c < min w height\<close>.
\<close>

lemma decode_loop_clipped:
  assumes "fs filename = Some bytes"
    and "parse_header \<lparr>content = bytes, position = 0\<rparr> = Inr (Some hdr)"
    and "length lcd0 = BUFFPIXEL"
    and "0 \<le> x" "x < width p" "width p < 2 ^ 31" "x + sint (hdr_width hdr) < 2 ^ 31"
    and "0 \<le> y" "y < height p" "height p < 2 ^ 31" "y + height_of (hdr_height hdr) < 2 ^ 31"
    and "w = crop x (sint (hdr_width hdr)) (width p)"
    and "h = crop y (height_of (hdr_height hdr)) (height p)"
  shows "w \<le> width p - x \<and> h \<le> height p - y
         \<and> (\<exists>res q. bmpDraw fs p sd0 lcd0 filename x y = Inr res
              \<and> bmpDraw_paint fs p sd0 lcd0 filename x y = Inr q
              \<and> (\<forall>c \<in> set (draw_calls res).
                    0 \<le> fst (coords c) \<and> fst (coords c) < h
                    \<and> 0 \<le> snd (coords c) \<and> snd (coords c) < w)
              \<and> length (image_buf q) = length (image_buf p)
              \<and> (\<forall>k. (\<forall>r c. 0 \<le> r \<and> r < min h (width p) \<and> 0 \<le> c \<and> c < min w (height p)
                             \<longrightarrow> pixel_index p r c div 8 \<noteq> k)
                    \<longrightarrow> image_buf q ! k = image_buf p ! k))"
proof -
  define cs where "cs = calls (decode p sd0 lcd0 hdr x y)"
  define res where "res = \<lparr>open_called = True, goodBmp = True, draw_calls = cs\<rparr>"
  have dc: "draw_calls res = cs" by (simp add: res_def)
  have r: "bmpDraw fs p sd0 lcd0 filename x y = Inr res"
    using assms(1,2,5,9) by (simp add: bmpDraw_def res_def cs_def)
  have q: "bmpDraw_paint fs p sd0 lcd0 filename x y = Inr (run_calls p cs)"
    by (simp add: bmpDraw_paint_def r dc)
  have w: "w \<le> width p - x"
    unfolding assms(12) using assms(4-7) sint32_lower[of "hdr_width hdr"]
    by (intro crop_le) auto
  have h: "h \<le> height p - y"
    unfolding assms(13) using assms(8-11) height_of_lower[of "hdr_height hdr"]
    by (intro crop_le) auto
  have 1: "0 \<le> fst (coords c) \<and> fst (coords c) < h
             \<and> 0 \<le> snd (coords c) \<and> snd (coords c) < w"
    if "c \<in> set cs" for c
    using decode_calls_bounds[OF assms(3), of c p sd0 hdr x y] that
    unfolding cs_def assms(12,13) by simp
  have 2: "image_buf (run_calls p cs) ! k = image_buf p ! k"
    if k: "\<forall>r c. 0 \<le> r \<and> r < min h (width p) \<and> 0 \<le> c \<and> c < min w (height p)
               \<longrightarrow> pixel_index p r c div 8 \<noteq> k" for k
  proof (rule run_calls_frame, rule ballI)
    fix c assume c: "c \<in> set cs"
    from 1[OF c] have b: "0 \<le> fst (coords c)" "fst (coords c) < h"
      "0 \<le> snd (coords c)" "snd (coords c) < w" by simp_all
    show "\<not> hits p k (coords c)"
    proof
      assume hit: "hits p k (coords c)"
      then have "fst (coords c) < width p" "snd (coords c) < height p"
        "pixel_index p (fst (coords c)) (snd (coords c)) div 8 = k"
        by (simp_all add: hits_def)
      with b k[rule_format, of "fst (coords c)" "snd (coords c)"] show False by simp
    qed
  qed
  have 3: "length (image_buf (run_calls p cs)) = length (image_buf p)"
    by simp
  have "\<exists>res q. bmpDraw fs p sd0 lcd0 filename x y = Inr res
              \<and> bmpDraw_paint fs p sd0 lcd0 filename x y = Inr q
              \<and> (\<forall>c \<in> set (draw_calls res).
                    0 \<le> fst (coords c) \<and> fst (coords c) < h
                    \<and> 0 \<le> snd (coords c) \<and> snd (coords c) < w)
              \<and> length (image_buf q) = length (image_buf p)
              \<and> (\<forall>k. (\<forall>r c. 0 \<le> r \<and> r < min h (width p) \<and> 0 \<le> c \<and> c < min w (height p)
                             \<longrightarrow> pixel_index p r c div 8 \<noteq> k)
                    \<longrightarrow> image_buf q ! k = image_buf p ! k)"
  proof (intro exI[of _ res] exI[of _ "run_calls p cs"] conjI)
    show "bmpDraw fs p sd0 lcd0 filename x y = Inr res" by (rule r)
    show "bmpDraw_paint fs p sd0 lcd0 filename x y = Inr (run_calls p cs)"
      by (rule q)
    show "\<forall>c \<in> set (draw_calls res).
             0 \<le> fst (coords c) \<and> fst (coords c) < h
             \<and> 0 \<le> snd (coords c) \<and> snd (coords c) < w"
      unfolding dc using 1 by blast
    show "length (image_buf (run_calls p cs)) = length (image_buf p)" by (rule 3)
    show "\<forall>k. (\<forall>r c. 0 \<le> r \<and> r < min h (width p) \<and> 0 \<le> c \<and> c < min w (height p)
                          \<longrightarrow> pixel_index p r c div 8 \<noteq> k)
                 \<longrightarrow> image_buf (run_calls p cs) ! k = image_buf p ! k"
      using 2 by blast
  qed
  with w h show ?thesis by blast
qed

lemma decode_loop_clipped_24x1:
  "[''/a.bmp'' \<mapsto> black_24x1_bmp] ''/a.bmp'' = Some black_24x1_bmp
   \<and> parse_header \<lparr>content = black_24x1_bmp, position = 0\<rparr> = Inr (Some wide_hdr)
   \<and> length lcd_zero = BUFFPIXEL
   \<and> (0::int) \<le> 0 \<and> 0 < width white16 \<and> width white16 < 2 ^ 31
   \<and> 0 + sint (hdr_width wide_hdr) < 2 ^ 31
   \<and> 0 < height white16 \<and> height white16 < 2 ^ 31
   \<and> 0 + height_of (hdr_height wide_hdr) < 2 ^ 31
   \<and> 16 = crop 0 (sint (hdr_width wide_hdr)) (width white16)
   \<and> 1 = crop 0 (height_of (hdr_height wide_hdr)) (height white16)
   \<and> (\<exists>q. bmpDraw_paint [''/a.bmp'' \<mapsto> black_24x1_bmp] white16 sd_zero lcd_zero ''/a.bmp'' 0 0 = Inr q
         \<and> image_buf q ! 1 = image_buf white16 ! 1)"
proof -
  have f: "[''/a.bmp'' \<mapsto> black_24x1_bmp] ''/a.bmp'' = Some black_24x1_bmp" by simp
  have l: "length lcd_zero = BUFFPIXEL" by (simp add: lcd_zero_def BUFFPIXEL_def)
  have x: "(0::int) \<le> 0" "0 < width white16" "width white16 < 2 ^ 31"
    "0 + sint (hdr_width wide_hdr) < 2 ^ 31"
    by (simp_all add: white16_def wide_hdr_def)
  have y: "(0::int) \<le> 0" "0 < height white16" "height white16 < 2 ^ 31"
    "0 + height_of (hdr_height wide_hdr) < 2 ^ 31"
    by (simp_all add: white16_def wide_hdr_def height_of_def)
  have cw: "16 = crop 0 (sint (hdr_width wide_hdr)) (width white16)"
    by (simp add: crop_def int32_def wide_hdr_def white16_def)
  have ch: "1 = crop 0 (height_of (hdr_height wide_hdr)) (height white16)"
    by (simp add: crop_def int32_def wide_hdr_def white16_def height_of_def)
  have k: "\<forall>r c. 0 \<le> r \<and> r < min 1 (width white16) \<and> 0 \<le> c \<and> c < min 16 (height white16)
             \<longrightarrow> pixel_index white16 r c div 8 \<noteq> 1"
  proof (intro allI impI)
    fix r c :: int
    assume a: "0 \<le> r \<and> r < min 1 (width white16) \<and> 0 \<le> c \<and> c < min 16 (height white16)"
    then have r: "r = 0" by simp
    have "nat (c * 16) = 16 * nat c" using a by simp
    then show "pixel_index white16 r c div 8 \<noteq> 1"
      by (simp add: pixel_index_def white16_def r)
  qed
  from decode_loop_clipped[where fs = "[''/a.bmp'' \<mapsto> black_24x1_bmp]" and filename = "''/a.bmp''"
      and bytes = black_24x1_bmp and hdr = wide_hdr and ?lcd0.0 = lcd_zero and x = 0 and y = 0
      and p = white16 and ?sd0.0 = sd_zero and w = 16 and h = 1,
      OF f wide_hdr_parse l x y cw ch] k
  have "\<exists>q. bmpDraw_paint [''/a.bmp'' \<mapsto> black_24x1_bmp] white16 sd_zero lcd_zero ''/a.bmp'' 0 0 = Inr q
         \<and> image_buf q ! 1 = image_buf white16 ! 1"
    by blast
  then show ?thesis using f wide_hdr_parse l x y cw ch by blast
qed

text \<open>
  What \<open>bmpDraw\<close> at \<open>(0, 0)\<close> makes of a file written by \<open>snapshot\<close>.  For a non-empty
  framebuffer whose width is a multiple of 8 and whose pixels fit the backing capacity (at
  most 40000 pixels, all inside its buffer), the header is accepted and every pixel of the
  file is decoded with the colour that \<open>snapshot\<close> gave it; as \<open>pushColours\<close> passes the row
  as x and the column as y, the pixel \<open>(x, y)\<close> of the result holds the pixel \<open>(y, x)\<close> of
  the original wherever \<open>x < height\<close> and \<open>y < width\<close>, and the other pixels keep the value
  they had before the call.
\<close>

lemma bmpDraw_snapshot_pixels:
  assumes "width p mod 8 = 0" "0 < width p" "0 < height p" "width p * height p \<le> 40000"
    and "width p * height p \<le> 8 * int (length (image_buf p))"
    and "width q = width p" "height q = height p"
    and "width q * height q \<le> 8 * int (length (image_buf q))"
    and "length sd0 = sizeof_sdbuffer" "length lcd0 = BUFFPIXEL"
    and "fs filename = Some (snapshot p)"
  shows "\<exists>q'. bmpDraw_paint fs q sd0 lcd0 filename 0 0 = Inr q'
           \<and> width q' = width p \<and> height q' = height p
           \<and> length (image_buf q') = length (image_buf q)
           \<and> (\<forall>x y. 0 \<le> x \<and> x < width p \<and> 0 \<le> y \<and> y < height p \<longrightarrow>
                  GetPixel q' x y
                    = (if x < height p \<and> y < width p then GetPixel p y x else GetPixel q x y))"
proof -
  define cs where "cs = transposed_calls p 0"
  have dr: "bmpDraw fs q sd0 lcd0 filename 0 0
              = Inr \<lparr>open_called = True, goodBmp = True, draw_calls = cs\<rparr>"
    using assms(2,3,6,7,11) decode_snapshot[OF assms(1-4,6,7,9,10)]
    by (simp add: bmpDraw_def parse_header_snapshot cs_def)
  have pa: "bmpDraw_paint fs q sd0 lcd0 filename 0 0 = Inr (run_calls q cs)"
    by (simp add: bmpDraw_paint_def dr)
  have px: "GetPixel (run_calls q cs) x y
              = (if x < height p \<and> y < width p then GetPixel p y x else GetPixel q x y)"
    if xy: "0 \<le> x" "x < width p" "0 \<le> y" "y < height p" for x y
  proof -
    have k: "\<forall>c \<in> set cs. coords c = (x, y)
               \<longrightarrow> (if snd (snd c) \<noteq> 0 then WHITE else BLACK) = GetPixel p y x"
      unfolding cs_def set_transposed_calls by (auto simp: thr_GetPixel)
    have m: "(x, y) \<in> coords ` set cs \<longleftrightarrow> x < height p \<and> y < width p"
      unfolding cs_def set_transposed_calls using xy by (auto simp: image_iff)
    have "GetPixel (run_calls q cs) x y
            = (if (x, y) \<in> coords ` set cs then GetPixel p y x else GetPixel q x y)"
      using xy assms(6,7,8) k by (intro run_calls_pixel) simp_all
    then show ?thesis by (simp only: m)
  qed
  show ?thesis
  proof (intro exI[of _ "run_calls q cs"] conjI allI impI)
    show "bmpDraw_paint fs q sd0 lcd0 filename 0 0 = Inr (run_calls q cs)" by (rule pa)
    show "width (run_calls q cs) = width p" by (simp add: assms(6))
    show "height (run_calls q cs) = height p" by (simp add: assms(7))
    show "length (image_buf (run_calls q cs)) = length (image_buf q)" by simp
  next
    fix x y assume "0 \<le> x \<and> x < width p \<and> 0 \<le> y \<and> y < height p"
    then show "GetPixel (run_calls q cs) x y
                 = (if x < height p \<and> y < width p then GetPixel p y x else GetPixel q x y)"
      using px by blast
  qed
qed

lemma bmpDraw_snapshot_pixels_dot8:
  "width dot8 mod 8 = 0 \<and> 0 < width dot8 \<and> 0 < height dot8 \<and> width dot8 * height dot8 \<le> 40000
   \<and> width dot8 * height dot8 \<le> 8 * int (length (image_buf dot8))
   \<and> width white8 = width dot8 \<and> height white8 = height dot8
   \<and> width white8 * height white8 \<le> 8 * int (length (image_buf white8))
   \<and> length sd_zero = sizeof_sdbuffer \<and> length lcd_zero = BUFFPIXEL
   \<and> [''/generated-qr-code.bmp'' \<mapsto> snapshot dot8] ''/generated-qr-code.bmp'' = Some (snapshot dot8)
   \<and> (\<exists>q'. bmpDraw_paint [''/generated-qr-code.bmp'' \<mapsto> snapshot dot8] white8 sd_zero lcd_zero
                ''/generated-qr-code.bmp'' 0 0 = Inr q'
          \<and> GetPixel q' 0 1 = BLACK \<and> GetPixel q' 1 0 = WHITE)"
proof -
  have h: "width dot8 mod 8 = 0" "0 < width dot8" "0 < height dot8"
    "width dot8 * height dot8 \<le> 40000"
    "width dot8 * height dot8 \<le> 8 * int (length (image_buf dot8))"
    "width white8 = width dot8" "height white8 = height dot8"
    "width white8 * height white8 \<le> 8 * int (length (image_buf white8))"
    "length sd_zero = sizeof_sdbuffer" "length lcd_zero = BUFFPIXEL"
    "[''/generated-qr-code.bmp'' \<mapsto> snapshot dot8] ''/generated-qr-code.bmp'' = Some (snapshot dot8)"
    by (simp_all add: dot8_def white8_def sd_zero_def lcd_zero_def sizeof_sdbuffer_def BUFFPIXEL_def)
  have g: "GetPixel dot8 1 0 = BLACK" "GetPixel dot8 0 1 = WHITE"
    by (simp_all add: GetPixel_def dot8_def pixel_index_def pixel_mask_def Let_def WHITE_def BLACK_def)
  from bmpDraw_snapshot_pixels[OF h(1-10), where fs = "[''/generated-qr-code.bmp'' \<mapsto> snapshot dot8]"
      and filename = "''/generated-qr-code.bmp''", OF h(11)]
  obtain q' where q: "bmpDraw_paint [''/generated-qr-code.bmp'' \<mapsto> snapshot dot8] white8 sd_zero lcd_zero
                ''/generated-qr-code.bmp'' 0 0 = Inr q'"
    and a: "\<forall>x y. 0 \<le> x \<and> x < width dot8 \<and> 0 \<le> y \<and> y < height dot8 \<longrightarrow>
                  GetPixel q' x y
                    = (if x < height dot8 \<and> y < width dot8 then GetPixel dot8 y x else GetPixel white8 x y)"
    by blast
  have "GetPixel q' 0 1 = BLACK" using a[rule_format, of 0 1] g by (simp add: dot8_def)
  moreover have "GetPixel q' 1 0 = WHITE" using a[rule_format, of 1 0] g by (simp add: dot8_def)
  ultimately show ?thesis using h q by blast
qed

section \<open>The claims\<close>

text \<open>
  C2 (row padding of the snapshot encoder).  The claim is that, for every width, a row of
  the emitted file (3 bytes per pixel plus the padding written after it) has a byte count
  that is a multiple of 4.  The encoder takes the number of padding bytes from the pixel
  count, \<open>4 - width % 4\<close>, not from the byte count of the row: for a paint object one pixel
  wide it writes 3 bytes of pixel data and 3 bytes of padding, 6 bytes, which is not a
  multiple of 4.  (By \<open>snapshot_row_padded_iff\<close> the byte count is a multiple of 4 exactly
  for the even widths.)
\<close>

theorem snapshot_row_width1:
  "snapshot_row narrow_paint 0 = [0xFF, 0xFF, 0xFF, 0, 0, 0]
   \<and> length (snapshot_row narrow_paint 0) = 6
   \<and> \<not> 4 dvd length (snapshot_row narrow_paint 0)"
  by code_simp

text \<open>
  C3, as stated (a scanline pixel of value 0 is written BLACK, every other value WHITE),
  fails: for the scanline \<open>[0, 0x1234]\<close> the pixel of value 0 is written WHITE and the
  non-zero pixel BLACK.
\<close>

theorem PNGDraw_zero_is_white:
  "PNGDraw_calls white8 2 3 [0, 0x1234] = [(0, 3, WHITE), (1, 3, BLACK)] \<and> WHITE \<noteq> BLACK"
  by code_simp

text \<open>
  C3, amended (threshold rule of the generic compressed-image codec): for every pixel
  \<open>i\<close> of a decoded scanline that lies inside the scanline and inside the width of the
  paint object, \<open>PNGDraw\<close> calls \<open>DrawPixel(i, y, c)\<close> where \<open>c\<close> is WHITE when the pixel
  value is 0 and BLACK when it is not.
\<close>

theorem PNGDraw_threshold:
  assumes "0 \<le> i" "i < iWidth" "i < width p" "nat i < length usPixels"
  shows "PNGDraw_calls p iWidth y usPixels ! nat i =
           (i, y, if usPixels ! nat i = 0 then WHITE else BLACK)"
  using PNGDraw_loop_nth[of "nat i" iWidth p 0 y usPixels] assms
  by (auto simp: PNGDraw_calls_def)

theorem PNGDraw_threshold_witness:
  "(0::int) \<le> 1 \<and> (1::int) < 2 \<and> 1 < width white8 \<and> nat 1 < length [0, 0x1234 :: u16]
   \<and> PNGDraw_calls white8 2 3 [0, 0x1234] ! nat 1 = (1, 3, BLACK)"
proof -
  have h: "(1::int) < width white8" by (simp add: white8_def)
  from PNGDraw_threshold[of 1 2 white8 "[0, 0x1234]" 3] h show ?thesis by simp
qed

text \<open>
  C4 (bitmap decode rejects without drawing).  The claim is that a file whose bit depth
  is not 24 leaves the framebuffer unchanged.  \<open>bmpDraw\<close> stores the 16-bit depth field in
  the 8-bit variable \<open>bmpDepth\<close> before it compares it with 24, so a depth field of 280
  (\<open>0x0118\<close>) is accepted: on the file \<open>bad_depth_bmp\<close> the decoder draws a black pixel
  into the white framebuffer.  (By \<open>bmpDraw_rejects\<close> the framebuffer is unchanged for a
  wrong signature, plane count or compression flag, and for a depth whose low byte is
  not 24.)
\<close>

theorem bmpDraw_depth_280_draws:
  "bad_depth_bmp ! 28 = 0x18 \<and> bad_depth_bmp ! 29 = 0x01
   \<and> bmpDraw_paint [''/a.bmp'' \<mapsto> bad_depth_bmp] white8 sd_zero lcd_zero ''/a.bmp'' 0 0
       = Inr (white8\<lparr>image_buf := [0x7F, 0xFF, 0xFF, 0xFF, 0xFF, 0xFF, 0xFF, 0xFF]\<rparr>)"
  by code_simp

text \<open>
  C5 (bitmap row addressing).  The claim is that scanline \<open>r\<close> of a top-down bitmap is
  read from the byte offset \<open>bmpImageoffset + r * row_bytes\<close>.  The file \<open>topdown19_bmp\<close>
  has a negative height field (flip flag false), the image offset 54 and the row stride
  \<open>(19*3 + 3) & ~3 = 60\<close>, so that scanline 1 is at offset 114, where the file holds 19
  white pixels.  \<open>bmpDraw\<close> computes that offset, finds the file cursor there already after
  the 60-byte read of scanline 0 and skips the seek together with the reset of its buffer
  index: the first pixel of scanline 1 is taken from the three padding bytes at offset
  111, which decode as BLACK, and the other pixels from three bytes before their
  offsets.  (The computed offsets are those of the claim, \<open>row_offsets\<close>; the divergence is
  in the bytes read.)
\<close>

theorem scanline_not_read_from_offset:
  "(case parse_header \<lparr>content = topdown19_bmp, position = 0\<rparr> of
      Inr (Some hdr) \<Rightarrow>
        sint (hdr_height hdr) = - 2 \<and> \<not> flip_of (hdr_height hdr)
        \<and> hdr_offset hdr = 54 \<and> rowSize_of (hdr_width hdr) = 60
        \<and> row_pos (flip_of (hdr_height hdr)) (hdr_offset hdr) (height_of (hdr_height hdr))
              (rowSize_of (hdr_width hdr)) 1 = 114
    | _ \<Rightarrow> False)
   \<and> map (\<lambda>c. pixel_at topdown19_bmp (114 + 3 * c)) [0..<19] = replicate 19 WHITE
   \<and> pixel_at topdown19_bmp 111 = BLACK
   \<and> bmpDraw [''/a.bmp'' \<mapsto> topdown19_bmp] white32 sd_zero lcd_zero ''/a.bmp'' 0 0
       = Inr \<lparr>open_called = True, goodBmp = True,
              draw_calls = map (\<lambda>c. (0, c, WHITE)) [0..18]
                           @ (1, 0, BLACK) # map (\<lambda>c. (1, c, WHITE)) [1..18]\<rparr>"
  by code_simp

text \<open>
  C7 (seek avoidance as a refinement).  The claim is that the buffered decoder, which
  seeks only when the file position differs from the offset of the next scanline, issues
  the same pixel writes as a decoder that seeks to every scanline.  When the position
  already equals the offset, \<open>bmpDraw\<close> keeps the unread rest of its 60-byte buffer: on the
  top-down file \<open>topdown19_bmp\<close> (19 white pixels per row, 57 + 3 bytes) the first pixel of
  the second scanline is taken from the padding of the first, and is drawn BLACK where
  the reference decoder draws WHITE.
\<close>

theorem seek_avoidance_differs:
  "(case parse_header \<lparr>content = topdown19_bmp, position = 0\<rparr> of
      Inr (Some hdr) \<Rightarrow>
        calls (decode white32 sd_zero lcd_zero hdr 0 0) ! 19 = (1, 0, BLACK)
        \<and> calls (decode_ref white32 sd_zero lcd_zero hdr 0 0) ! 19 = (1, 0, WHITE)
    | _ \<Rightarrow> False)"
  by code_simp

text \<open>
  C8, as stated (the bitmap codec is chosen for the suffix \<open>.bmp\<close> in any letter case),
  fails: a file name that ends in \<open>.Bmp\<close> selects no codec and triggers no display update.
\<close>

theorem display_image_mixed_case:
  "display_image False True ''/photo.Bmp'' = [] \<and> display_image True True ''/photo.Bmp'' = []"
  by (simp add: display_image_def endsWith_def)

text \<open>
  C8, amended (codec selection by file-name suffix): \<open>display_image\<close> opens the PNG codec
  exactly for the names that end in \<open>.png\<close> (in a build that has the PNG codec), and calls
  the bitmap codec exactly for the names that end in \<open>.bmp\<close> or in \<open>.BMP\<close>, both compared
  case-sensitively; a name with none of the three suffixes triggers no decode and no
  display update.
\<close>

theorem display_image_selection:
  "(Png_open \<in> set (display_image False png_ok filename) \<longleftrightarrow> endsWith filename ''.png'')
   \<and> (Bmp_draw \<in> set (display_image esp8266 png_ok filename)
        \<longleftrightarrow> endsWith filename ''.bmp'' \<or> endsWith filename ''.BMP'')
   \<and> (\<not> endsWith filename ''.png'' \<and> \<not> endsWith filename ''.bmp'' \<and> \<not> endsWith filename ''.BMP''
        \<longrightarrow> display_image esp8266 png_ok filename = [])"
  by (auto simp: display_image_def endsWith_def)

theorem display_image_selection_witness:
  "\<not> endsWith ''/notes.txt'' ''.png'' \<and> \<not> endsWith ''/notes.txt'' ''.bmp''
   \<and> \<not> endsWith ''/notes.txt'' ''.BMP'' \<and> display_image False True ''/notes.txt'' = []
   \<and> Bmp_draw \<in> set (display_image False True ''/qr.BMP'')"
  using display_image_selection[of True "''/notes.txt''" False]
    display_image_selection[of True "''/qr.BMP''" False]
  by (simp add: endsWith_def)

text \<open>
  C9 (guard at the decoder's interface): a call \<open>bmpDraw(filename, x, y)\<close> with \<open>x\<close> at or
  beyond the width of the framebuffer, or \<open>y\<close> at or beyond its height, returns before
  \<open>LittleFS.open\<close> is called, issues no \<open>DrawPixel\<close> call and leaves the paint object as it
  was.
\<close>

theorem bmpDraw_out_of_bounds:
  assumes "x \<ge> width p \<or> y \<ge> height p"
  shows "bmpDraw fs p sd0 lcd0 filename x y
           = Inr \<lparr>open_called = False, goodBmp = False, draw_calls = []\<rparr>
         \<and> bmpDraw_paint fs p sd0 lcd0 filename x y = Inr p"
  using assms by (auto simp: bmpDraw_def bmpDraw_paint_def run_calls_def)

theorem bmpDraw_out_of_bounds_witness:
  "((8::int) \<ge> width white8 \<or> (0::int) \<ge> height white8)
   \<and> open_called (projr (bmpDraw [''/a.bmp'' \<mapsto> bad_depth_bmp] white8 sd_zero lcd_zero ''/a.bmp'' 8 0)) = False
   \<and> bmpDraw_paint [''/a.bmp'' \<mapsto> bad_depth_bmp] white8 sd_zero lcd_zero ''/a.bmp'' 8 0 = Inr white8"
proof -
  have h: "(8::int) \<ge> width white8 \<or> (0::int) \<ge> height white8" by (simp add: white8_def)
  from bmpDraw_out_of_bounds[OF h] show ?thesis using h by simp
qed

text \<open>
  C6 (clipping).  The claim is that every byte of the backing buffer outside the clipped
  destination region is unchanged after \<open>bmpDraw\<close> returns.  \<open>bmpDraw\<close> documents \<open>x\<close> and
  \<open>y\<close> as the offset in the paint object at which the image is stored and clips the column
  count against \<open>width - x\<close> and the row count against \<open>height - y\<close>, but \<open>pushColours\<close>
  calls \<open>DrawPixel(row, col + idx, ...)\<close>: the row goes where the column belongs and the
  offsets are never added.  A bitmap 24 pixels wide and 1 pixel high, drawn at \<open>(0, 0)\<close>
  into a 16 by 16 framebuffer, is clipped to 16 by 1; the clipped destination region is
  row 0, bytes 0 and 1 of the buffer, yet the decoder changes the first byte of every row.
  A bitmap of 17 by 3 pixels drawn at \<open>(8, 0)\<close> into a 16 by 2 framebuffer is clipped to
  8 by 2; the destination region is the right half of both rows, bytes 1 and 3, yet the
  decoder changes bytes 0 and 2 and leaves bytes 1 and 3 as they were.
\<close>

theorem bmpDraw_clipping_transposed:
  "bmpDraw_paint [''/a.bmp'' \<mapsto> black_24x1_bmp] white16 sd_zero lcd_zero ''/a.bmp'' 0 0
     = Inr (white16\<lparr>image_buf := concat (replicate 16 [0x7F, 0xFF])\<rparr>)
   \<and> bmpDraw_paint [''/a.bmp'' \<mapsto> black_17x3_bmp] paint16x2 sd_zero lcd_zero ''/a.bmp'' 8 0
     = Inr (paint16x2\<lparr>image_buf := [0x3F, 0xFF, 0x3F, 0xFF]\<rparr>)"
  by code_simp

text \<open>
  C10 (pixel placement of the bitmap codec).  On a file whose header is accepted, the
  coordinates of the \<open>DrawPixel\<close> calls of \<open>bmpDraw\<close> are, in order, \<open>(r, c)\<close> for every
  scanline row \<open>r\<close> below the clipped height and every column \<open>c\<close> below the clipped width:
  the pixel of row \<open>r\<close> and column \<open>c\<close> is written at \<open>x = r\<close>, \<open>y = c\<close>.  The offsets \<open>x\<close>
  and \<open>y\<close> of the call occur in the two clipped counts only.
\<close>

theorem bmpDraw_placement:
  assumes "fs filename = Some bytes"
    and "parse_header \<lparr>content = bytes, position = 0\<rparr> = Inr (Some hdr)"
    and "length lcd0 = BUFFPIXEL"
    and "x < width p" "y < height p"
  shows "\<exists>res. bmpDraw fs p sd0 lcd0 filename x y = Inr res
           \<and> map coords (draw_calls res)
               = concat (map (\<lambda>r. map (\<lambda>c. (r, c))
                                  [0..crop x (sint (hdr_width hdr)) (width p) - 1])
                           [0..crop y (height_of (hdr_height hdr)) (height p) - 1])"
  using assms decode_calls[of lcd0 p sd0 hdr x y]
  by (simp add: bmpDraw_def grid_def)

theorem bmpDraw_placement_witness:
  "[''/a.bmp'' \<mapsto> small_bmp] ''/a.bmp'' = Some small_bmp
   \<and> parse_header \<lparr>content = small_bmp, position = 0\<rparr> = Inr (Some small_hdr)
   \<and> length lcd_zero = BUFFPIXEL \<and> 3 < width white8 \<and> 1 < height white8
   \<and> (\<exists>res. bmpDraw [''/a.bmp'' \<mapsto> small_bmp] white8 sd_zero lcd_zero ''/a.bmp'' 3 1 = Inr res
         \<and> map coords (draw_calls res) = [(0, 0), (0, 1), (1, 0), (1, 1)])"
proof -
  have f: "[''/a.bmp'' \<mapsto> small_bmp] ''/a.bmp'' = Some small_bmp" by simp
  have l: "length lcd_zero = BUFFPIXEL" by (simp add: lcd_zero_def BUFFPIXEL_def)
  have x: "3 < width white8" and y: "1 < height white8" by (simp_all add: white8_def)
  have cw: "crop 3 (sint (hdr_width small_hdr)) (width white8) = 2"
    by (simp add: crop_def int32_def small_hdr_def white8_def)
  have u: "[0..(1::int)] = [0, 1]" by (simp add: upto_rec1)
  have ch: "crop 1 (height_of (hdr_height small_hdr)) (height white8) = 2"
    by (simp add: crop_def int32_def small_hdr_def white8_def height_of_def)
  from bmpDraw_placement[where fs = "[''/a.bmp'' \<mapsto> small_bmp]" and filename = "''/a.bmp''"
      and bytes = small_bmp and hdr = small_hdr and ?lcd0.0 = lcd_zero and x = 3 and y = 1
      and p = white8 and ?sd0.0 = sd_zero, OF f small_hdr_parse l x y]
  show ?thesis using f small_hdr_parse l x y u by (simp add: cw ch)
qed

text \<open>
  C1 (lossless black/white round trip).  The claim is that \<open>snapshot\<close> followed by
  \<open>bmpDraw\<close> at \<open>(0, 0)\<close> into a fresh framebuffer of the same dimensions reproduces the
  packed bit pattern.  \<open>snapshot\<close> writes the pixel \<open>(x = col, y = row)\<close> as column \<open>col\<close> of
  scanline \<open>row\<close>, and \<open>PNGDraw\<close> draws column \<open>i\<close> of a scanline at \<open>x = i\<close>;
  \<open>pushColours\<close> of the bitmap decoder passes the scanline row as x and the column as y.
  The 8 by 8 framebuffer \<open>dot8\<close> has its only black pixel at \<open>(x = 1, y = 0)\<close>, first byte
  \<open>0xBF\<close>; after the round trip into a white framebuffer of the same dimensions the black
  pixel is at \<open>(x = 0, y = 1)\<close>, second byte \<open>0x7F\<close>, and the first byte is \<open>0xFF\<close>.
\<close>

theorem snapshot_bmpDraw_not_identity:
  "image_buf dot8 = [0xBF, 0xFF, 0xFF, 0xFF, 0xFF, 0xFF, 0xFF, 0xFF]
   \<and> bmpDraw_paint [''/generated-qr-code.bmp'' \<mapsto> snapshot dot8] white8 sd_zero lcd_zero
         ''/generated-qr-code.bmp'' 0 0
       = Inr (white8\<lparr>image_buf := [0xFF, 0x7F, 0xFF, 0xFF, 0xFF, 0xFF, 0xFF, 0xFF]\<rparr>)"
  by code_simp


end
